theory Spec2Isabelle
  imports Main
begin

unbundle bit_operations_syntax

section \<open>Python values: errors, lists, ranges\<close>

text \<open>
  Every exception the modelled code can raise is a value of \<open>error\<close>; a function that
  may raise returns \<open>error + 'a\<close> with \<open>Inl\<close> for the exception.
\<close>

datatype error = ValueError | IndexError | OverflowError | TypeError | UnicodeError | AttributeError

definition ebind :: "error + 'a \<Rightarrow> ('a \<Rightarrow> error + 'b) \<Rightarrow> error + 'b" where
  "ebind m f = (case m of Inl e \<Rightarrow> Inl e | Inr x \<Rightarrow> f x)"

text \<open>A \<open>for\<close> loop over a list that threads a state and stops at the first exception.\<close>

primrec efold :: "('a \<Rightarrow> 's \<Rightarrow> error + 's) \<Rightarrow> 'a list \<Rightarrow> 's \<Rightarrow> error + 's" where
  "efold f [] s = Inr s"
| "efold f (x # xs) s = ebind (f x s) (efold f xs)"

text \<open>\<open>range(a, b)\<close> over Python integers.\<close>

definition py_range :: "int \<Rightarrow> int \<Rightarrow> int list" where
  "py_range a b = [a..b - 1]"

text \<open>\<open>xs[i]\<close>: a negative index counts from the end, anything out of range raises.\<close>

definition py_index :: "'a list \<Rightarrow> int \<Rightarrow> error + 'a" where
  "py_index xs i =
     (let n = int (length xs); k = (if i < 0 then i + n else i)
      in if 0 \<le> k \<and> k < n then Inr (xs ! nat k) else Inl IndexError)"

text \<open>\<open>xs[i] = v\<close> on a list.\<close>

definition py_store :: "'a list \<Rightarrow> int \<Rightarrow> 'a \<Rightarrow> error + 'a list" where
  "py_store xs i v =
     (let n = int (length xs); k = (if i < 0 then i + n else i)
      in if 0 \<le> k \<and> k < n then Inr (xs[nat k := v]) else Inl IndexError)"

text \<open>\<open>xs[lo:hi]\<close>: the bounds are clamped, never an exception.\<close>

definition py_clamp :: "nat \<Rightarrow> int \<Rightarrow> nat" where
  "py_clamp n k = (if k < 0 then nat (max 0 (k + int n)) else min (nat k) n)"

definition py_slice :: "'a list \<Rightarrow> int \<Rightarrow> int \<Rightarrow> 'a list" where
  "py_slice xs lo hi =
     (let n = length xs; l = py_clamp n lo; h = py_clamp n hi
      in take (h - l) (drop l xs))"

section \<open>bgx: binary helpers\<close>

type_synonym bytes = "nat list"

definition BITS :: "nat list" where
  "BITS = [1, 2, 4, 8, 16, 32, 64, 128]"

definition FLAGS :: bytes where
  "FLAGS = BITS"

text \<open>\<open>bytes(ba)\<close> of a list of integers: every item must be in \<open>range(256)\<close>.\<close>

definition py_bytes :: "nat list \<Rightarrow> error + bytes" where
  "py_bytes ba = (if \<forall>x \<in> set ba. x < 256 then Inr ba else Inl ValueError)"

text \<open>
  \<open>bytes_from_int(i, sz)\<close> is \<open>i.to_bytes(sz, sys.byteorder)\<close> and
  \<open>int_from_bytes(b, ix, sz)\<close> is \<open>int.from_bytes(b[ix:ix + sz], sys.byteorder)\<close>
  with the next offset; the byte order of the machine is a parameter.
\<close>

datatype byteorder = little | big

definition bytes_from_int :: "byteorder \<Rightarrow> int \<Rightarrow> nat \<Rightarrow> error + bytes" where
  "bytes_from_int bo i sz =
     (if i < 0 \<or> 256 ^ sz \<le> i then Inl OverflowError
      else let le = map (\<lambda>k. nat ((i div 256 ^ k) mod 256)) [0..<sz]
           in Inr (case bo of little \<Rightarrow> le | big \<Rightarrow> rev le))"

definition int_of_le :: "bytes \<Rightarrow> int" where
  "int_of_le bs = foldr (\<lambda>x acc. int x + 256 * acc) bs 0"

definition int_from_bytes :: "byteorder \<Rightarrow> bytes \<Rightarrow> int \<Rightarrow> nat \<Rightarrow> int \<times> int" where
  "int_from_bytes bo b ix sz =
     (let sl = py_slice b ix (ix + int sz)
      in (int_of_le (case bo of little \<Rightarrow> sl | big \<Rightarrow> rev sl), ix + int sz))"

section \<open>Python strings and UTF-8\<close>

text \<open>A Python \<open>str\<close> is the list of its code points.\<close>

type_synonym pystr = "nat list"

definition py_str :: "string \<Rightarrow> pystr" where
  "py_str s = map of_char s"

text \<open>\<open>bytes(s, encoding="utf-8")\<close>: one to four bytes per code point; surrogates are refused.\<close>

definition utf8_char :: "nat \<Rightarrow> error + bytes" where
  "utf8_char c =
     (if c < 0x80 then Inr [c]
      else if c < 0x800 then Inr [0xC0 + c div 64, 0x80 + c mod 64]
      else if 0xD800 \<le> c \<and> c < 0xE000 then Inl UnicodeError
      else if c < 0x10000 then Inr [0xE0 + c div 4096, 0x80 + (c div 64) mod 64, 0x80 + c mod 64]
      else if c < 0x110000 then
        Inr [0xF0 + c div 262144, 0x80 + (c div 4096) mod 64, 0x80 + (c div 64) mod 64,
             0x80 + c mod 64]
      else Inl UnicodeError)"

definition encode_utf8 :: "pystr \<Rightarrow> error + bytes" where
  "encode_utf8 s = efold (\<lambda>c acc. ebind (utf8_char c) (\<lambda>e. Inr (acc @ e))) s []"

text \<open>\<open>bytes.decode(b, encoding="utf-8")\<close>, strict: shortest form only, no surrogates.\<close>

definition is_cont :: "nat \<Rightarrow> bool" where
  "is_cont b = (0x80 \<le> b \<and> b < 0xC0)"

fun decode_utf8 :: "bytes \<Rightarrow> error + pystr" where
  "decode_utf8 [] = Inr []"
| "decode_utf8 (b0 # bs) =
     (if b0 < 0x80 then ebind (decode_utf8 bs) (\<lambda>r. Inr (b0 # r))
      else if 0xC2 \<le> b0 \<and> b0 < 0xE0 then
        (case bs of
           b1 # r1 \<Rightarrow>
             if is_cont b1
             then ebind (decode_utf8 r1) (\<lambda>r. Inr (((b0 - 0xC0) * 64 + (b1 - 0x80)) # r))
             else Inl UnicodeError
         | _ \<Rightarrow> Inl UnicodeError)
      else if 0xE0 \<le> b0 \<and> b0 < 0xF0 then
        (case bs of
           b1 # b2 # r2 \<Rightarrow>
             if is_cont b1 \<and> is_cont b2 \<and> (b0 = 0xE0 \<longrightarrow> 0xA0 \<le> b1)
                \<and> (b0 = 0xED \<longrightarrow> b1 < 0xA0)
             then ebind (decode_utf8 r2)
                    (\<lambda>r. Inr (((b0 - 0xE0) * 4096 + (b1 - 0x80) * 64 + (b2 - 0x80)) # r))
             else Inl UnicodeError
         | _ \<Rightarrow> Inl UnicodeError)
      else if 0xF0 \<le> b0 \<and> b0 < 0xF5 then
        (case bs of
           b1 # b2 # b3 # r3 \<Rightarrow>
             if is_cont b1 \<and> is_cont b2 \<and> is_cont b3 \<and> (b0 = 0xF0 \<longrightarrow> 0x90 \<le> b1)
                \<and> (b0 = 0xF4 \<longrightarrow> b1 < 0x90)
             then ebind (decode_utf8 r3)
                    (\<lambda>r. Inr (((b0 - 0xF0) * 262144 + (b1 - 0x80) * 4096 + (b2 - 0x80) * 64
                                 + (b3 - 0x80)) # r))
             else Inl UnicodeError
         | _ \<Rightarrow> Inl UnicodeError)
      else Inl UnicodeError)"

text \<open>\<open>str.strip()\<close> removes the characters for which \<open>str.isspace\<close> holds.\<close>

definition py_isspace :: "nat \<Rightarrow> bool" where
  "py_isspace c =
     ((9 \<le> c \<and> c \<le> 13) \<or> (28 \<le> c \<and> c \<le> 32) \<or> c = 0x85 \<or> c = 0xA0 \<or> c = 0x1680
      \<or> (0x2000 \<le> c \<and> c \<le> 0x200A) \<or> c = 0x2028 \<or> c = 0x2029 \<or> c = 0x202F
      \<or> c = 0x205F \<or> c = 0x3000)"

definition strip :: "pystr \<Rightarrow> pystr" where
  "strip s = rev (dropWhile py_isspace (rev (dropWhile py_isspace s)))"

text \<open>\<open>(s + "  ")[0:2]\<close>, the two-character field of a tag.\<close>

definition pad2 :: "pystr \<Rightarrow> pystr" where
  "pad2 s = take 2 (s @ py_str ''  '')"

section \<open>bx\_graph: operations, transformations, histories\<close>

text \<open>
  The three operation classes; \<open>code\<close> is their class attribute.  The constructor of
  \<open>AddEdge\<close> refuses a loop, so every \<open>AddEdge\<close> object has distinct fields.
\<close>

datatype Operation = AddEdge (op_i: int) (op_j: int) | DelEdge (op_i: int) (op_j: int) | AddVertex

definition new_AddEdge :: "int \<Rightarrow> int \<Rightarrow> error + Operation" where
  "new_AddEdge i j = (if i = j then Inl ValueError else Inr (AddEdge i j))"

fun code :: "Operation \<Rightarrow> string" where
  "code (AddEdge i j) = ''e''"
| "code (DelEdge i j) = ''d''"
| "code AddVertex = ''v''"

record Transformation =
  alg :: pystr
  ops :: "Operation list"

record History =
  root :: pystr
  elements :: "Transformation list"

record BXGraph =
  history :: History
  size_bx :: int
  badj :: bytes
  nedge :: int

text \<open>\<open>_are_conn(b, n, i, j)\<close>.\<close>

definition are_conn :: "bytes \<Rightarrow> int \<Rightarrow> int \<Rightarrow> int \<Rightarrow> error + bool" where
  "are_conn b n i j =
     (if i < 0 \<or> i \<ge> n \<or> j < 0 \<or> j \<ge> n then Inl IndexError
      else if i = j then Inr False
      else let ii = (if i > j then i else j);
               jj = (if i > j then j else i);
               bi = drop_bit 1 (ii * (ii - 1)) + jj
           in ebind (py_index b (drop_bit 3 bi)) (\<lambda>x.
              ebind (py_index FLAGS (bi mod 8)) (\<lambda>f.
              Inr (x AND f \<noteq> 0))))"

text \<open>\<open>BXGraph._nedge\<close> and \<open>BXGraph.__init__\<close>: the constructor counts the edges.\<close>

definition count_edges :: "bytes \<Rightarrow> int \<Rightarrow> error + int" where
  "count_edges b n =
     efold (\<lambda>i. efold (\<lambda>j c. ebind (are_conn b n i j) (\<lambda>r. Inr (if r then c + 1 else c)))
                       (py_range 0 i))
           (py_range 1 n) 0"

definition new_BXGraph :: "History \<Rightarrow> int \<Rightarrow> bytes \<Rightarrow> error + BXGraph" where
  "new_BXGraph h n b =
     ebind (count_edges b n) (\<lambda>c. Inr \<lparr>history = h, size_bx = n, badj = b, nedge = c\<rparr>)"

definition conn :: "'a BXGraph_scheme \<Rightarrow> int \<Rightarrow> int \<Rightarrow> error + bool" where
  "conn g i j = are_conn (badj g) (size_bx g) i j"

text \<open>Adjacency tables are lists of rows; \<open>adj[i][j]\<close> and \<open>adj[i][j] = v\<close>.\<close>

type_synonym adjacency = "int list list"

definition adj_get :: "adjacency \<Rightarrow> int \<Rightarrow> int \<Rightarrow> error + int" where
  "adj_get adj i j = ebind (py_index adj i) (\<lambda>row. py_index row j)"

definition adj_set :: "adjacency \<Rightarrow> int \<Rightarrow> int \<Rightarrow> int \<Rightarrow> error + adjacency" where
  "adj_set adj i j v =
     ebind (py_index adj i) (\<lambda>row.
     ebind (py_store row j v) (\<lambda>row'. py_store adj i row'))"

text \<open>
  \<open>bytes_from_adj\<close>: the loop state is the list of finished bytes, the byte being
  filled and the number of bits it holds.
\<close>

definition pack_bit :: "adjacency \<Rightarrow> int \<Rightarrow> int \<Rightarrow> nat list \<times> nat \<times> int
    \<Rightarrow> error + nat list \<times> nat \<times> int" where
  "pack_bit adj i j st =
     (case st of (ba, bi, k) \<Rightarrow>
        ebind (adj_get adj i j) (\<lambda>x.
        ebind (if x = 1 then ebind (py_index BITS k) (\<lambda>w. Inr (bi + w)) else Inr bi) (\<lambda>bi'.
        if k + 1 = 8 then Inr (ba @ [bi'], 0, 0) else Inr (ba, bi', k + 1))))"

definition bytes_from_adj :: "adjacency \<Rightarrow> error + bytes" where
  "bytes_from_adj adj =
     (let n = int (length adj)
      in ebind (efold (\<lambda>i. efold (pack_bit adj i) (py_range 0 i)) (py_range 1 n) ([], 0, 0))
           (\<lambda>(ba, bi, k). py_bytes (if k > 0 then ba @ [bi] else ba)))"

text \<open>\<open>ext_adj_from_bytes\<close> (and \<open>adj_from_bytes\<close>, its case \<open>n_ext = 0\<close>).\<close>

definition mark_conn :: "bytes \<Rightarrow> int \<Rightarrow> int \<Rightarrow> int \<Rightarrow> adjacency \<Rightarrow> error + adjacency" where
  "mark_conn ba n i j adj =
     ebind (are_conn ba n i j) (\<lambda>r.
       if r then ebind (adj_set adj i j 1) (\<lambda>a. adj_set a j i 1) else Inr adj)"

definition ext_adj_from_bytes :: "bytes \<Rightarrow> int \<Rightarrow> int \<Rightarrow> error + adjacency" where
  "ext_adj_from_bytes ba n n_ext =
     efold (\<lambda>i. efold (mark_conn ba n i) (py_range 0 i)) (py_range 1 n)
       (replicate (nat (n + n_ext)) (replicate (nat (n + n_ext)) 0))"

definition adj_from_bytes :: "bytes \<Rightarrow> int \<Rightarrow> error + adjacency" where
  "adj_from_bytes ba n = ext_adj_from_bytes ba n 0"

definition graph_from_root :: "pystr \<Rightarrow> adjacency \<Rightarrow> error + BXGraph" where
  "graph_from_root r adj =
     ebind (bytes_from_adj adj) (\<lambda>b.
       new_BXGraph \<lparr>root = r, elements = []\<rparr> (int (length adj)) b)"

text \<open>\<open>apply_transformation\<close>: one pass of the loop over the operations, then the whole.\<close>

fun apply_op :: "Operation \<Rightarrow> adjacency \<Rightarrow> error + adjacency" where
  "apply_op (AddEdge i j) adj =
     ebind (adj_get adj i j) (\<lambda>x.
       if x = 1 then Inl ValueError
       else ebind (adj_set adj i j 1) (\<lambda>a. adj_set a j i 1))"
| "apply_op (DelEdge i j) adj =
     ebind (adj_get adj i j) (\<lambda>x.
       if x = 0 then Inl ValueError
       else ebind (adj_set adj i j 0) (\<lambda>a. adj_set a j i 0))"
| "apply_op AddVertex adj = Inr adj"

definition count_ext :: "Operation list \<Rightarrow> int" where
  "count_ext os = sum_list (map (\<lambda>tx. if code tx = ''v'' then 1 else 0) os)"

definition apply_transformation :: "'a BXGraph_scheme \<Rightarrow> Transformation \<Rightarrow> error + BXGraph" where
  "apply_transformation graph transformation =
     (let n_ext = count_ext (ops transformation)
      in ebind (ext_adj_from_bytes (badj graph) (size_bx graph) n_ext) (\<lambda>adj.
         ebind (efold apply_op (ops transformation) adj) (\<lambda>adj'.
         ebind (bytes_from_adj adj') (\<lambda>b.
           new_BXGraph \<lparr>root = root (history graph),
                         elements = elements (history graph) @ [transformation]\<rparr>
             (size_bx graph + n_ext) b))))"

section \<open>bx\_graph: the history codec\<close>

text \<open>
  The list forms that the codec works on: an operation is its name and its integer
  arguments, a transformation its name and its operations, a history its root and its
  transformations (the first item of the Python list is kept apart from the rest).
\<close>

type_synonym op_list = "pystr \<times> int list"
type_synonym tx_list = "pystr \<times> op_list list"
type_synonym hist_list = "pystr \<times> tx_list list"

definition bytes_from_op_list :: "byteorder \<Rightarrow> op_list \<Rightarrow> error + bytes" where
  "bytes_from_op_list bo ol =
     (case ol of (op_name, args) \<Rightarrow>
        if op_name = py_str ''v'' then encode_utf8 (py_str ''v '')
        else if op_name = py_str ''d'' then
          ebind (encode_utf8 (py_str ''d '')) (\<lambda>p.
          ebind (py_index args 0) (\<lambda>a1.
          ebind (bytes_from_int bo a1 2) (\<lambda>b1.
          ebind (py_index args 1) (\<lambda>a2.
          ebind (bytes_from_int bo a2 2) (\<lambda>b2. Inr (p @ b1 @ b2))))))
        else if op_name = py_str ''e'' then
          ebind (encode_utf8 (py_str ''e '')) (\<lambda>p.
          ebind (py_index args 0) (\<lambda>a1.
          ebind (bytes_from_int bo a1 2) (\<lambda>b1.
          ebind (py_index args 1) (\<lambda>a2.
          ebind (bytes_from_int bo a2 2) (\<lambda>b2. Inr (p @ b1 @ b2))))))
        else Inl ValueError)"

definition bytes_from_tx :: "byteorder \<Rightarrow> tx_list \<Rightarrow> error + bytes" where
  "bytes_from_tx bo tx =
     (case tx of (name, ols) \<Rightarrow>
        ebind (encode_utf8 (pad2 name)) (\<lambda>p1.
        ebind (bytes_from_int bo (int (length ols)) 2) (\<lambda>p2.
        efold (\<lambda>ol result. ebind (bytes_from_op_list bo ol) (\<lambda>e. Inr (result @ e)))
          ols (p1 @ p2))))"

definition bytes_from_hist :: "byteorder \<Rightarrow> hist_list \<Rightarrow> error + bytes" where
  "bytes_from_hist bo hist =
     (case hist of (r, txs) \<Rightarrow>
        ebind (encode_utf8 (pad2 r)) (\<lambda>bb.
        ebind (bytes_from_int bo (int (length txs)) 2) (\<lambda>c.
        efold (\<lambda>tx bb. ebind (bytes_from_tx bo tx) (\<lambda>e. Inr (bb @ e))) txs (bb @ c))))"

definition op_list_from_bytes :: "byteorder \<Rightarrow> bytes \<Rightarrow> int \<Rightarrow> error + op_list \<times> int" where
  "op_list_from_bytes bo b ix =
     ebind (decode_utf8 (py_slice b ix (ix + 2))) (\<lambda>raw.
       let op_name = strip raw; jx = ix + 2
       in if op_name = py_str ''v'' then Inr ((op_name, []), jx)
          else if op_name = py_str ''e'' \<or> op_name = py_str ''d'' then
            (case int_from_bytes bo b jx 2 of (i, jx1) \<Rightarrow>
             case int_from_bytes bo b jx1 2 of (j, jx2) \<Rightarrow>
               Inr ((op_name, [i, j]), jx2))
          else Inl ValueError)"

text \<open>\<open>for i in range(k)\<close> around a parser that moves the offset.\<close>

primrec parse_many :: "(int \<Rightarrow> error + 'a \<times> int) \<Rightarrow> nat \<Rightarrow> 'a list \<Rightarrow> int
    \<Rightarrow> error + 'a list \<times> int" where
  "parse_many f 0 acc jx = Inr (acc, jx)"
| "parse_many f (Suc k) acc jx =
     ebind (f jx) (\<lambda>(x, jx'). parse_many f k (acc @ [x]) jx')"

definition tx_from_bytes :: "byteorder \<Rightarrow> bytes \<Rightarrow> int \<Rightarrow> error + tx_list \<times> int" where
  "tx_from_bytes bo b ix =
     ebind (decode_utf8 (py_slice b ix (ix + 2))) (\<lambda>tx_name.
       case int_from_bytes bo b (ix + 2) 2 of (tx_len, jx) \<Rightarrow>
         ebind (parse_many (op_list_from_bytes bo b) (nat tx_len) [] jx) (\<lambda>(ols, jx').
           Inr ((tx_name, ols), jx')))"

definition hist_from_bytes :: "byteorder \<Rightarrow> bytes \<Rightarrow> error + hist_list" where
  "hist_from_bytes bo bb =
     ebind (decode_utf8 (py_slice bb 0 2)) (\<lambda>r.
       case int_from_bytes bo bb 2 2 of (hlen, jx) \<Rightarrow>
         ebind (parse_many (tx_from_bytes bo bb) (nat hlen) [] jx) (\<lambda>(txs, jx').
           Inr (r, txs)))"

text \<open>The \<open>to_list\<close> methods.\<close>

fun op_to_list :: "Operation \<Rightarrow> op_list" where
  "op_to_list (AddEdge i j) = (py_str ''e'', [i, j])"
| "op_to_list (DelEdge i j) = (py_str ''d'', [i, j])"
| "op_to_list AddVertex = (py_str ''v'', [])"

definition transformation_to_list :: "Transformation \<Rightarrow> tx_list" where
  "transformation_to_list t = (alg t, map op_to_list (ops t))"

definition history_to_list :: "History \<Rightarrow> hist_list" where
  "history_to_list h = (root h, map transformation_to_list (elements h))"

definition to_bytes :: "byteorder \<Rightarrow> History \<Rightarrow> error + bytes" where
  "to_bytes bo h = bytes_from_hist bo (history_to_list h)"

text \<open>
  \<open>op_from_list\<close>, \<open>transformation_from_list\<close>, \<open>history_from_list\<close>.  The list of an
  operation has \<open>1 + length args\<close> items, and its arguments are integers by type.
\<close>

definition op_from_list :: "op_list \<Rightarrow> error + Operation" where
  "op_from_list ol =
     (case ol of (name, args) \<Rightarrow>
        if name = py_str ''v'' then Inr AddVertex
        else if name = py_str ''e'' then
          (if length args \<noteq> 2 then Inl ValueError else new_AddEdge (args ! 0) (args ! 1))
        else if name = py_str ''d'' then
          (if length args \<noteq> 2 then Inl ValueError else Inr (DelEdge (args ! 0) (args ! 1)))
        else Inl ValueError)"

text \<open>A list comprehension whose body may raise.\<close>

definition emap :: "('a \<Rightarrow> error + 'b) \<Rightarrow> 'a list \<Rightarrow> error + 'b list" where
  "emap f xs = efold (\<lambda>x acc. ebind (f x) (\<lambda>y. Inr (acc @ [y]))) xs []"

definition transformation_from_list :: "tx_list \<Rightarrow> error + Transformation" where
  "transformation_from_list e_list =
     (case e_list of (name, ols) \<Rightarrow>
        ebind (emap op_from_list ols) (\<lambda>os. Inr \<lparr>alg = name, ops = os\<rparr>))"

definition history_from_list :: "hist_list \<Rightarrow> error + History" where
  "history_from_list h_list =
     (case h_list of (r, txs) \<Rightarrow>
        ebind (emap transformation_from_list txs) (\<lambda>es. Inr \<lparr>root = r, elements = es\<rparr>))"

definition history_from_bytes :: "byteorder \<Rightarrow> bytes \<Rightarrow> error + History" where
  "history_from_bytes bo bb = ebind (hist_from_bytes bo bb) history_from_list"

section \<open>cycles: canonical cycles and their codec\<close>

text \<open>\<open>_arg_min\<close>: the index of the first least item, \<open>None\<close> on an empty list.\<close>

primrec arg_min_loop :: "int list \<Rightarrow> nat \<Rightarrow> (int \<times> nat) option \<Rightarrow> (int \<times> nat) option" where
  "arg_min_loop [] i st = st"
| "arg_min_loop (x # xs) i st =
     arg_min_loop xs (Suc i)
       (case st of None \<Rightarrow> Some (x, i)
        | Some (mv, mi) \<Rightarrow> if x < mv then Some (x, i) else Some (mv, mi))"

definition arg_min_idx :: "int list \<Rightarrow> nat option" where
  "arg_min_idx item_list = map_option snd (arg_min_loop item_list 0 None)"

text \<open>
  \<open>_arrange_cycle\<close>.  On an empty list \<open>i\<close> is \<open>None\<close> and \<open>i - 1\<close> raises; otherwise
  every index is reduced modulo the length and so is in range.
\<close>

definition arrange_cycle :: "int list \<Rightarrow> error + int list" where
  "arrange_cycle cv =
     (case arg_min_idx cv of
        None \<Rightarrow> Inl TypeError
      | Some k \<Rightarrow>
          let i = int k; n = int (length cv);
              d = (if cv ! nat ((i - 1) mod n) < cv ! nat ((i + 1) mod n) then - 1 else 1)
          in if i = 0 \<and> d = 1 then Inr cv
             else Inr (map (\<lambda>j. cv ! nat ((i + d * j) mod n)) (py_range 0 n)))"

text \<open>
  A \<open>Cycle\<close> object holds the arranged tuple; \<open>__eq__\<close> compares the tuples, which is
  the equality of the datatype.
\<close>

datatype Cycle = Cyc (vlist: "int list")

definition new_Cycle :: "int list \<Rightarrow> error + Cycle" where
  "new_Cycle vl = ebind (arrange_cycle vl) (\<lambda>v. Inr (Cyc v))"

definition bytes_from_cycle :: "byteorder \<Rightarrow> Cycle \<Rightarrow> error + bytes" where
  "bytes_from_cycle bo cyc =
     ebind (bytes_from_int bo (int (length (vlist cyc))) 4) (\<lambda>r.
       efold (\<lambda>v result. ebind (bytes_from_int bo v 2) (\<lambda>e. Inr (result @ e))) (vlist cyc) r)"


definition bytes_from_cycle_list :: "byteorder \<Rightarrow> Cycle list \<Rightarrow> error + bytes" where
  "bytes_from_cycle_list bo cyc_list =
     efold (\<lambda>cyc acc. ebind (bytes_from_cycle bo cyc) (\<lambda>e. Inr (acc @ e))) cyc_list []"





section \<open>cycles: the cycle algebra\<close>

text \<open>
  A Python \<open>set\<close> of cycles is the list of its members without repetition.  The list
  is in insertion order where CPython iterates by hash; statements about a result
  read it through \<open>set\<close>.
\<close>

definition set_add :: "'a list \<Rightarrow> 'a \<Rightarrow> 'a list" where
  "set_add s x = (if x \<in> set s then s else s @ [x])"

text \<open>\<open>xs[:k]\<close> and \<open>xs[k:]\<close>.\<close>

definition py_take :: "'a list \<Rightarrow> int \<Rightarrow> 'a list" where
  "py_take xs k = take (py_clamp (length xs) k) xs"

definition py_drop :: "'a list \<Rightarrow> int \<Rightarrow> 'a list" where
  "py_drop xs k = drop (py_clamp (length xs) k) xs"

text \<open>\<open>xs.index(v)\<close>.\<close>

definition py_list_index :: "'a list \<Rightarrow> 'a \<Rightarrow> error + int" where
  "py_list_index xs v =
     (case find (\<lambda>k. xs ! k = v) [0..<length xs] of
        None \<Rightarrow> Inl ValueError
      | Some k \<Rightarrow> Inr (int k))"

definition divide_pos :: "int list \<Rightarrow> int \<Rightarrow> int \<Rightarrow> int" where
  "divide_pos vl v1 v2 =
     (let n = length vl
      in case find (\<lambda>i. let vp1 = vl ! i; vp2 = vl ! ((i + 1) mod n)
                         in (vp1 = v1 \<and> vp2 = v2) \<or> (vp1 = v2 \<and> vp2 = v1)) [0..<n] of
           None \<Rightarrow> - 1
         | Some i \<Rightarrow> int i + 1)"

text \<open>\<open>apply_subdivide_edge\<close>: the cycle that one pass of the loop adds, then the loop.\<close>

definition subdivide_cycle :: "Cycle \<Rightarrow> int \<Rightarrow> int \<Rightarrow> int \<Rightarrow> error + Cycle" where
  "subdivide_cycle cycle v1 v2 w =
     (let p = divide_pos (vlist cycle) v1 v2
      in if p < 0 then Inr cycle
         else if p = int (length (vlist cycle)) then new_Cycle (vlist cycle @ [w])
         else new_Cycle (py_take (vlist cycle) p @ [w] @ py_drop (vlist cycle) p))"

definition apply_subdivide_edge :: "Cycle list \<Rightarrow> int \<Rightarrow> int \<Rightarrow> int \<Rightarrow> error + Cycle list" where
  "apply_subdivide_edge cycles v1 v2 w =
     efold (\<lambda>cycle result. ebind (subdivide_cycle cycle v1 v2 w) (\<lambda>c. Inr (set_add result c)))
       cycles []"

text \<open>One pass of the loop of \<open>_splices\<close>, on the two lists and the flag.\<close>

definition splice_step :: "int list \<Rightarrow> int \<Rightarrow> int \<Rightarrow> int \<Rightarrow> int list \<times> int list \<times> bool
    \<Rightarrow> int list \<times> int list \<times> bool" where
  "splice_step vl i1 i2 i st =
     (case st of (vl1, vl2, flag) \<Rightarrow>
        let p = (i + i1) mod int (length vl);
            vl1' = (if \<not> flag then vl1 @ [vl ! nat p] else vl1);
            flag' = (flag \<or> p = i2);
            vl2' = (if flag' then vl2 @ [vl ! nat p] else vl2)
        in (vl1', vl2', flag'))"

definition splices :: "int list \<Rightarrow> int \<Rightarrow> int \<Rightarrow> error + int list \<times> int list" where
  "splices vl v1 v2 =
     ebind (py_list_index vl v1) (\<lambda>i1.
     ebind (py_list_index vl v2) (\<lambda>i2.
       case fold (splice_step vl i1 i2) (py_range 0 (int (length vl))) ([], [], False) of
         (vl1, vl2, flag) \<Rightarrow> Inr (vl1, vl2 @ [v1])))"

definition follow_triangle :: "int list \<Rightarrow> int \<Rightarrow> int \<Rightarrow> int list" where
  "follow_triangle vl i v =
     concat (map (\<lambda>j. if int j = i then [vl ! j, v] else [vl ! j]) [0..<length vl])"

text \<open>
  \<open>apply_add_edge\<close>.  \<open>conn\<close> is the caller's predicate and may raise; \<open>and\<close> calls it
  only when the vertex test before it holds.
\<close>

definition add_corner :: "int list \<Rightarrow> (int \<Rightarrow> int \<Rightarrow> error + bool) \<Rightarrow> bool \<Rightarrow> int \<Rightarrow> int \<Rightarrow> int
    \<Rightarrow> Cycle list \<Rightarrow> error + Cycle list" where
  "add_corner vl conn_f here nb pos v result =
     (if here then
        ebind (conn_f (vl ! nat nb) v) (\<lambda>r.
          if r then ebind (new_Cycle (follow_triangle vl pos v)) (\<lambda>c. Inr (set_add result c))
          else Inr result)
      else Inr result)"

definition add_corners :: "int list \<Rightarrow> int \<Rightarrow> int \<Rightarrow> (int \<Rightarrow> int \<Rightarrow> error + bool) \<Rightarrow> int
    \<Rightarrow> Cycle list \<Rightarrow> error + Cycle list" where
  "add_corners vl v1 v2 conn_f i result =
     (let n = int (length vl); x = vl ! nat i; prv = (i - 1) mod n; nxt = (i + 1) mod n
      in ebind (add_corner vl conn_f (x = v1) prv prv v2 result) (\<lambda>r1.
         ebind (add_corner vl conn_f (x = v1) nxt i v2 r1) (\<lambda>r2.
         ebind (add_corner vl conn_f (x = v2) prv prv v1 r2) (\<lambda>r3.
         add_corner vl conn_f (x = v2) nxt i v1 r3))))"

definition add_edge_cycle :: "int \<Rightarrow> int \<Rightarrow> (int \<Rightarrow> int \<Rightarrow> error + bool) \<Rightarrow> Cycle \<Rightarrow> Cycle list
    \<Rightarrow> error + Cycle list" where
  "add_edge_cycle v1 v2 conn_f cycle result0 =
     (let result = set_add result0 cycle; vl = vlist cycle; n = int (length vl);
          vc = length (filter (\<lambda>v. v = v1 \<or> v = v2) vl)
      in if vc = 2 then
           ebind (splices vl v1 v2) (\<lambda>(vl1, vl2).
           ebind (new_Cycle vl1) (\<lambda>c1.
           ebind (new_Cycle vl2) (\<lambda>c2. Inr (set_add (set_add result c1) c2))))
         else if vc = 1 then efold (add_corners vl v1 v2 conn_f) (py_range 0 n) result
         else Inr result)"

definition apply_add_edge :: "Cycle list \<Rightarrow> int \<Rightarrow> int \<Rightarrow> (int \<Rightarrow> int \<Rightarrow> error + bool)
    \<Rightarrow> error + Cycle list" where
  "apply_add_edge cycles v1 v2 conn_f = efold (add_edge_cycle v1 v2 conn_f) cycles []"

section \<open>cycles: moving an edge\<close>

text \<open>
  \<open>get_pattern\<close>: the loop state is the string built so far, \<open>last_known\<close> and the
  three positions; \<open>s.replace("**", "*")\<close> scans once from the left.
\<close>

definition pattern_step :: "int \<Rightarrow> int \<Rightarrow> int \<Rightarrow> int \<Rightarrow> string \<times> bool \<times> int \<times> int \<times> int
    \<Rightarrow> string \<times> bool \<times> int \<times> int \<times> int" where
  "pattern_step a b c v st =
     (case st of (s, last_known, pa, pb, pc) \<Rightarrow>
        if v = a then (s @ ''a'', True, int (length s), pb, pc)
        else if v = b then (s @ ''b'', True, pa, int (length s), pc)
        else if v = c then (s @ ''c'', True, pa, pb, int (length s))
        else ((if last_known then s @ ''*'' else s), False, pa, pb, pc))"

fun replace_stars :: "string \<Rightarrow> string" where
  "replace_stars (x # y # r) =
     (if x = CHR ''*'' \<and> y = CHR ''*'' then CHR ''*'' # replace_stars r
      else x # replace_stars (y # r))"
| "replace_stars r = r"

definition get_pattern :: "int list \<Rightarrow> int \<Rightarrow> int \<Rightarrow> int \<Rightarrow> string" where
  "get_pattern vl a b c =
     (case fold (pattern_step a b c) vl ([], True, - 1, - 1, - 1) of
        (s, last_known, pa, pb, pc) \<Rightarrow>
          replace_stars
            (if pa \<ge> 0 then py_drop s pa @ py_take s pa
             else if pb \<ge> 0 then py_drop s pb @ py_take s pb
             else if pc \<ge> 0 then py_drop s pc @ py_take s pc
             else s))"

text \<open>\<open>get_index\<close>: the loop leaves as soon as the three indices are known.\<close>

fun get_index_loop :: "int list \<Rightarrow> int \<Rightarrow> int \<Rightarrow> int \<Rightarrow> int \<Rightarrow> int \<times> int \<times> int
    \<Rightarrow> int \<times> int \<times> int" where
  "get_index_loop [] i a b c st = st"
| "get_index_loop (v # vs) i a b c (ai, bi, ci) =
     (let st = (if v = a then (i, bi, ci)
                else if v = b then (ai, i, ci)
                else if v = c then (ai, bi, i)
                else (ai, bi, ci))
      in case st of (ai', bi', ci') \<Rightarrow>
           if ai' \<ge> 0 \<and> bi' \<ge> 0 \<and> ci' \<ge> 0 then st
           else get_index_loop vs (i + 1) a b c st)"

definition get_index :: "int list \<Rightarrow> int \<Rightarrow> int \<Rightarrow> int \<Rightarrow> int \<times> int \<times> int" where
  "get_index vl a b c = get_index_loop vl 0 a b c (- 1, - 1, - 1)"

text \<open>
  The loop shared by the branches \<open>a*c*\<close>, \<open>a*c*b\<close> and \<open>ab*c*\<close>: walk once round the
  cycle from \<open>start\<close>, filling the first list up to \<open>c\<close> and the second from \<open>c\<close> on.
\<close>

definition split_step :: "int list \<Rightarrow> int \<Rightarrow> int \<Rightarrow> int \<Rightarrow> int list \<times> int list \<times> bool
    \<Rightarrow> int list \<times> int list \<times> bool" where
  "split_step vl start c i st =
     (case st of (newlist1, newlist2, flag) \<Rightarrow>
        let j = (i + start) mod int (length vl); x = vl ! nat j;
            l1 = (if \<not> flag then newlist1 @ [x] else newlist1);
            flag' = (flag \<or> x = c);
            l2 = (if flag' then newlist2 @ [x] else newlist2)
        in (l1, l2, flag'))"

definition split_at_c :: "int list \<Rightarrow> int \<Rightarrow> int \<Rightarrow> int list \<times> int list" where
  "split_at_c vl start c =
     (case fold (split_step vl start c) (py_range 0 (int (length vl))) ([], [], False) of
        (newlist1, newlist2, flag) \<Rightarrow> (newlist1, newlist2))"

definition add_two :: "int list \<times> int list \<Rightarrow> Cycle list \<Rightarrow> error + Cycle list" where
  "add_two ls result =
     (case ls of (newlist1, newlist2) \<Rightarrow>
        ebind (new_Cycle newlist1) (\<lambda>cyc1.
        ebind (new_Cycle newlist2) (\<lambda>cyc2. Inr (set_add (set_add result cyc1) cyc2))))"

definition add_one :: "int list \<Rightarrow> Cycle list \<Rightarrow> error + Cycle list" where
  "add_one newlist result = ebind (new_Cycle newlist) (\<lambda>cyc. Inr (set_add result cyc))"

definition passthrough_patterns :: "string set" where
  "passthrough_patterns =
     {''*'', ''a*'', ''b*'', ''c*'', ''a*b*'', ''a*b*c*'', ''a*bc*'', ''a*c*b*'', ''a*cb*'',
      ''b*c'', ''b*c*'', ''bc*''}"

definition impossible_patterns :: "string set" where
  "impossible_patterns = {''a*bc'', ''a*c'', ''ab*c'', ''ac*'', ''ac*b'', ''ac*b*'', ''acb*''}"

text \<open>The \<open>if\<close>/\<open>elif\<close> chain applied to one cycle; both \<open>else\<close> branches raise.\<close>

definition move_cycle :: "Cycle \<Rightarrow> int \<Rightarrow> int \<Rightarrow> int \<Rightarrow> Cycle list \<Rightarrow> error + Cycle list" where
  "move_cycle cycle a b c result =
     (let vl = vlist cycle
      in case get_index vl a b c of (ai, bi, ci) \<Rightarrow>
         let patt = get_pattern vl a b c
         in if patt = ''a*b'' then
              add_one (py_take vl (bi + 1) @ [c] @ py_drop vl (bi + 1)) result
            else if patt = ''a*c*'' then add_two (split_at_c vl ai c) (set_add result cycle)
            else if patt = ''a*c*b'' then add_two (split_at_c vl ai c) result
            else if patt = ''a*cb'' then add_one (py_take vl bi @ py_drop vl (bi + 1)) result
            else if patt = ''ab*'' then
              add_one (py_take vl (ai + 1) @ [c] @ py_drop vl (ai + 1)) result
            else if patt = ''ab*c*'' then add_two (split_at_c vl bi c) result
            else if patt = ''abc*'' then add_one (py_take vl bi @ py_drop vl (bi + 1)) result
            else if patt \<in> passthrough_patterns then Inr (set_add result cycle)
            else if patt \<in> impossible_patterns then Inl ValueError
            else Inl ValueError)"

text \<open>
  Results of code with a \<open>while\<close> loop: \<open>None\<close> when the loop never ends, otherwise the
  exception or the value.
\<close>

type_synonym 'a outcome = "(error + 'a) option"

definition obind :: "'a outcome \<Rightarrow> ('a \<Rightarrow> 'b outcome) \<Rightarrow> 'b outcome" where
  "obind m f = (case m of None \<Rightarrow> None | Some (Inl e) \<Rightarrow> Some (Inl e) | Some (Inr x) \<Rightarrow> f x)"

definition returned :: "error + 'a \<Rightarrow> 'a outcome" where
  "returned r = Some r"

primrec ofold :: "('a \<Rightarrow> 's \<Rightarrow> 's outcome) \<Rightarrow> 'a list \<Rightarrow> 's \<Rightarrow> 's outcome" where
  "ofold f [] s = Some (Inr s)"
| "ofold f (x # xs) s = obind (f x s) (ofold f xs)"

text \<open>
  \<open>while j != target: newlist.append(vlist[j]); j = (j + inc) % n\<close>.
\<close>

partial_function (option) walk :: "int list \<Rightarrow> int \<Rightarrow> int \<Rightarrow> int \<Rightarrow> int list
    \<Rightarrow> (error + int list) option" where
  "walk vl j inc target newlist =
     (if j = target then Some (Inr newlist)
      else case py_index vl j of
             Inl e \<Rightarrow> Some (Inl e)
           | Inr x \<Rightarrow> walk vl ((j + inc) mod int (length vl)) inc target (newlist @ [x]))"

declare walk.simps [code]

text \<open>The body of the two inner loops of the stitching pass.\<close>

definition stitch_pair :: "int \<Rightarrow> int \<Rightarrow> int \<Rightarrow> Cycle \<Rightarrow> Cycle \<Rightarrow> Cycle list
    \<Rightarrow> Cycle list outcome" where
  "stitch_pair a b c cyc1 cyc2 result =
     (if set (vlist cyc1) \<inter> set (vlist cyc2) \<noteq> {b} then Some (Inr result)
      else
        let n1 = int (length (vlist cyc1))
        in case get_index (vlist cyc1) a b c of (ai1, bi1, ci1) \<Rightarrow>
           if get_pattern (vlist cyc1) a b c \<notin> {''ab*'', ''a*b''} then Some (Inr result)
           else
             let n2 = int (length (vlist cyc2))
             in case get_index (vlist cyc2) a b c of (ai2, bi2, ci2) \<Rightarrow>
                if get_pattern (vlist cyc2) a b c \<notin> {''b*c'', ''bc*''} then Some (Inr result)
                else
                  obind (returned (py_index (vlist cyc1) ((ai1 + 1) mod n1))) (\<lambda>x1.
                  obind (walk (vlist cyc1) ai1 (if x1 = b then - 1 else 1) bi1 []) (\<lambda>l1.
                  obind (returned (py_index (vlist cyc2) ((bi2 + 1) mod n2))) (\<lambda>x2.
                  obind (walk (vlist cyc2) bi2 (if x2 = c then - 1 else 1) ci2 l1) (\<lambda>l2.
                    returned (add_one (l2 @ [c]) result))))))"

definition move_step :: "Cycle list \<Rightarrow> int \<Rightarrow> int \<Rightarrow> int \<Rightarrow> Cycle \<Rightarrow> Cycle list
    \<Rightarrow> Cycle list outcome" where
  "move_step cycles a b c cycle result =
     obind (returned (move_cycle cycle a b c result))
       (ofold (\<lambda>cyc1. ofold (stitch_pair a b c cyc1) cycles) cycles)"

definition apply_move_edge :: "Cycle list \<Rightarrow> int \<Rightarrow> int \<Rightarrow> int \<Rightarrow> Cycle list outcome" where
  "apply_move_edge cycles a b c = ofold (move_step cycles a b c) cycles []"

section \<open>cycles: chording paths\<close>

record BXGraphCyc = BXGraph +
  cycles :: "Cycle list"

definition new_BXGraphCyc :: "History \<Rightarrow> int \<Rightarrow> bytes \<Rightarrow> Cycle list \<Rightarrow> error + BXGraphCyc" where
  "new_BXGraphCyc h n b cs =
     ebind (count_edges b n) (\<lambda>k.
       Inr \<lparr>history = h, size_bx = n, badj = b, nedge = k, cycles = cs\<rparr>)"

definition from_bxgraph :: "BXGraph \<Rightarrow> Cycle list \<Rightarrow> error + BXGraphCyc" where
  "from_bxgraph bx_graph cs = new_BXGraphCyc (history bx_graph) (size_bx bx_graph) (badj bx_graph) cs"

definition edge_lies_along_cycle :: "Cycle \<Rightarrow> int \<times> int \<Rightarrow> bool" where
  "edge_lies_along_cycle cycle vp =
     (case vp of (v1, v2) \<Rightarrow>
        let vl = vlist cycle; n = length vl
        in list_ex (\<lambda>i. (vl ! i = v1 \<and> vl ! ((i + 1) mod n) = v2)
                      \<or> (vl ! i = v2 \<and> vl ! ((i + 1) mod n) = v1)) [0..<n])"

definition edge_lies_along_path :: "int list \<Rightarrow> int \<times> int \<Rightarrow> bool" where
  "edge_lies_along_path path vp =
     (case vp of (v1, v2) \<Rightarrow>
        list_ex (\<lambda>i. (path ! i = v1 \<and> path ! (i + 1) = v2)
                   \<or> (path ! i = v2 \<and> path ! (i + 1) = v1)) [0..<length path - 1])"

definition is_chording_path_es :: "Cycle \<Rightarrow> int list \<Rightarrow> int set \<Rightarrow> (int \<times> int) set \<Rightarrow> bool" where
  "is_chording_path_es cycle path pvs pes =
     (let vl = vlist cycle; ncv = length (filter (\<lambda>v. v \<in> pvs) vl)
      in if ncv \<noteq> 2 then False
         else let n = length vl
              in if list_ex (\<lambda>i. (vl ! i, vl ! ((i + 1) mod n)) \<in> pes) [0..<n] then False
                 else let cvs = set vl in (\<exists>pe \<in> pes. fst pe \<in> cvs \<and> snd pe \<in> cvs))"

text \<open>
  The igraph object \<open>g\<close> is used through \<open>g.get_all_simple_paths(v1, [v2])\<close> only: it is
  the function from two vertices to the list of paths that igraph returns.
\<close>

type_synonym igraph = "int \<Rightarrow> int \<Rightarrow> int list list"

definition path_edges :: "int list \<Rightarrow> (int \<times> int) set" where
  "path_edges path =
     set (map (\<lambda>i. (path ! i, path ! (i + 1))) [0..<length path - 1])
     \<union> set (map (\<lambda>i. (path ! (i + 1), path ! i)) [0..<length path - 1])"

definition any_chording_paths :: "'a BXGraphCyc_scheme \<Rightarrow> igraph \<Rightarrow> (int \<times> int) list
    \<Rightarrow> (int \<times> int) list \<Rightarrow> bool" where
  "any_chording_paths bgc g pairs ignore_edges =
     list_ex (\<lambda>(v1, v2).
       list_ex (\<lambda>path.
         \<not> list_ex (edge_lies_along_path path) ignore_edges
         \<and> (let pes = path_edges path; pvs = set path
            in list_ex (\<lambda>cycle.
                 \<not> list_ex (edge_lies_along_cycle cycle) ignore_edges
                 \<and> is_chording_path_es cycle path pvs pes) (cycles bgc)))
         (g v1 v2)) pairs"

section \<open>generators: the rules that read the history\<close>

text \<open>
  \<open>igraph.Graph.Adjacency\<close> is a parameter; \<open>gen_igraph\<close> hands it the adjacency table.
\<close>

definition gen_igraph :: "(adjacency \<Rightarrow> igraph) \<Rightarrow> 'a BXGraph_scheme \<Rightarrow> error + igraph" where
  "gen_igraph ig bg = ebind (adj_from_bytes (badj bg) (size_bx bg)) (\<lambda>adj. Inr (ig adj))"

text \<open>The attributes \<open>i\<close> and \<open>j\<close> of an operation; \<open>AddVertex\<close> has neither.\<close>

fun get_i :: "Operation \<Rightarrow> error + int" where
  "get_i (AddEdge i j) = Inr i"
| "get_i (DelEdge i j) = Inr i"
| "get_i AddVertex = Inl AttributeError"

fun get_j :: "Operation \<Rightarrow> error + int" where
  "get_j (AddEdge i j) = Inr j"
| "get_j (DelEdge i j) = Inr j"
| "get_j AddVertex = Inl AttributeError"

definition startswith :: "pystr \<Rightarrow> pystr \<Rightarrow> bool" where
  "startswith s p = (take (length p) s = p)"

text \<open>A list display whose items may raise.\<close>

definition elist :: "(error + 'a) list \<Rightarrow> error + 'a list" where
  "elist xs = emap (\<lambda>x. x) xs"

text \<open>\<open>_prev_e\<close>; \<open>(None, None)\<close> is \<open>None\<close>.\<close>

definition prev_e :: "'a BXGraph_scheme \<Rightarrow> error + (int \<times> int) option" where
  "prev_e bg =
     ebind (py_index (elements (history bg)) (- 1)) (\<lambda>last_xform.
       if startswith (alg last_xform) (py_str ''e'') then
         ebind (py_index (ops last_xform) 0) (\<lambda>o1.
         ebind (get_i o1) (\<lambda>i.
         ebind (py_index (ops last_xform) 0) (\<lambda>o2.
         ebind (get_j o2) (\<lambda>j. Inr (Some (i, j))))))
       else Inr None)"

text \<open>
  A rule is a Python generator.  Its model returns the list of the children it yields
  when it is run to its end, or the exception that stops it; the children yielded
  before an exception are not kept.
\<close>

definition add_edge_child :: "BXGraphCyc \<Rightarrow> string \<Rightarrow> int \<Rightarrow> int \<Rightarrow> error + BXGraphCyc" where
  "add_edge_child bgc name u v =
     ebind (new_AddEdge u v) (\<lambda>e.
     ebind (apply_transformation bgc \<lparr>alg = py_str name, ops = [e]\<rparr>) (\<lambda>bg.
     ebind (apply_add_edge (cycles bgc) u v (conn bgc)) (\<lambda>cs. from_bxgraph bg cs)))"

definition e1 :: "BXGraphCyc \<Rightarrow> error + BXGraphCyc list" where
  "e1 bgc =
     efold (\<lambda>i. efold (\<lambda>j out.
              ebind (conn bgc i j) (\<lambda>r.
                if \<not> r then ebind (add_edge_child bgc ''e1'' i j) (\<lambda>ch. Inr (out @ [ch]))
                else Inr out))
            (py_range 0 i))
       (py_range 1 (size_bx bgc)) []"

definition e2_try :: "BXGraphCyc \<Rightarrow> int \<Rightarrow> int \<Rightarrow> BXGraphCyc list \<Rightarrow> error + BXGraphCyc list" where
  "e2_try bgc lastv i out =
     (if i \<noteq> lastv then
        ebind (conn bgc lastv i) (\<lambda>r.
          if \<not> r then ebind (add_edge_child bgc ''e2'' lastv i) (\<lambda>ch. Inr (out @ [ch]))
          else Inr out)
      else Inr out)"

definition e2 :: "BXGraphCyc \<Rightarrow> error + BXGraphCyc list" where
  "e2 bgc =
     ebind (prev_e bgc) (\<lambda>pe.
       case pe of
         None \<Rightarrow> Inl ValueError
       | Some (last_i, last_j) \<Rightarrow>
           efold (\<lambda>i out. ebind (e2_try bgc last_i i out) (e2_try bgc last_j i))
             (py_range 0 (size_bx bgc)) [])"

definition get_typeb_edge :: "'a BXGraph_scheme \<Rightarrow> error + (int \<times> int) option" where
  "get_typeb_edge bg =
     (if length (elements (history bg)) > 0 then
        ebind (py_index (elements (history bg)) (- 1)) (\<lambda>t.
          if startswith (alg t) (py_str ''e'') then
            ebind (py_index (ops t) 0) (\<lambda>o1.
            ebind (get_i o1) (\<lambda>i.
            ebind (py_index (ops t) 0) (\<lambda>o2.
            ebind (get_j o2) (\<lambda>j. Inr (Some (i, j))))))
          else Inr None)
      else Inr None)"

text \<open>
  The common tail of the three coextension rules: build the transformation, apply it,
  subdivide \<open>(s1, s2)\<close> with the new vertex \<open>n\<close>, move the edge \<open>(m1, m2)\<close> to \<open>(m1, n)\<close>.
\<close>

definition coext_child :: "BXGraphCyc \<Rightarrow> string \<Rightarrow> (error + Operation) list \<Rightarrow> int \<Rightarrow> int \<Rightarrow> int
    \<Rightarrow> int \<Rightarrow> int \<Rightarrow> BXGraphCyc outcome" where
  "coext_child bgc name oplist s1 s2 n m1 m2 =
     obind (returned (elist oplist)) (\<lambda>os.
     obind (returned (apply_transformation bgc \<lparr>alg = py_str name, ops = os\<rparr>)) (\<lambda>bg.
     obind (returned (apply_subdivide_edge (cycles bgc) s1 s2 n)) (\<lambda>cs.
     obind (apply_move_edge cs m1 m2 n) (\<lambda>cs'.
     returned (from_bxgraph bg cs')))))"

definition c1_pass :: "BXGraphCyc \<Rightarrow> igraph \<Rightarrow> int \<Rightarrow> int \<Rightarrow> int \<Rightarrow> BXGraphCyc list
    \<Rightarrow> BXGraphCyc list outcome" where
  "c1_pass bgc g a b n out0 =
     ofold (\<lambda>c out.
         if c \<noteq> a \<and> c \<noteq> b then
           obind (returned (conn bgc b c)) (\<lambda>r.
             if r \<and> \<not> any_chording_paths bgc g [(a, c), (a, b)] [(a, b), (b, c)] then
               obind (coext_child bgc ''c1''
                        [Inr AddVertex, Inr (DelEdge a b), new_AddEdge a n, new_AddEdge b n,
                         Inr (DelEdge b c), new_AddEdge c n] a b n c b)
                 (\<lambda>ch. Some (Inr (out @ [ch])))
             else Some (Inr out))
         else Some (Inr out))
       (py_range 0 n) out0"

definition c1 :: "(adjacency \<Rightarrow> igraph) \<Rightarrow> BXGraphCyc \<Rightarrow> BXGraphCyc list outcome" where
  "c1 ig bgc =
     obind (returned (get_typeb_edge bgc)) (\<lambda>e.
       case e of
         None \<Rightarrow> Some (Inl ValueError)
       | Some (a, b) \<Rightarrow>
           obind (returned (gen_igraph ig bgc)) (\<lambda>g.
           obind (c1_pass bgc g a b (size_bx bgc) []) (\<lambda>out.
           c1_pass bgc g b a (size_bx bgc) out)))"

definition find_c1_vertices :: "'a BXGraph_scheme \<Rightarrow> error + (int \<times> int \<times> int \<times> int) option" where
  "find_c1_vertices bgc =
     ebind (py_index (elements (history bgc)) (- 1)) (\<lambda>last_tx.
       if alg last_tx \<noteq> py_str ''c1'' then Inr None
       else
         ebind (py_index (ops last_tx) 1) (\<lambda>o1.
         ebind (get_i o1) (\<lambda>a.
         ebind (py_index (ops last_tx) 1) (\<lambda>o2.
         ebind (get_j o2) (\<lambda>b.
         ebind (py_index (ops last_tx) 4) (\<lambda>o3.
         ebind (get_j o3) (\<lambda>c.
         ebind (py_index (ops last_tx) 2) (\<lambda>o4.
         ebind (get_j o4) (\<lambda>x. Inr (Some (a, b, c, x)))))))))))"

definition c2_second :: "BXGraphCyc \<Rightarrow> igraph \<Rightarrow> int \<Rightarrow> int \<Rightarrow> int \<Rightarrow> int \<Rightarrow> int \<Rightarrow> int
    \<Rightarrow> BXGraphCyc list \<Rightarrow> BXGraphCyc list outcome" where
  "c2_second bgc g a b c x d n out0 =
     ofold (\<lambda>f out.
         if f \<notin> {a, b, c, d, x} then
           obind (returned (conn bgc a f)) (\<lambda>r.
             if r \<and> \<not> any_chording_paths bgc g [(f, a), (f, d)]
                        [(f, a), (a, d), (a, x), (x, b), (x, c)] then
               obind (coext_child bgc ''c2''
                        [Inr AddVertex, Inr (DelEdge a f), Inr (DelEdge a d), new_AddEdge f n,
                         new_AddEdge a n, new_AddEdge d n] a d n f a)
                 (\<lambda>ch. Some (Inr (out @ [ch])))
             else Some (Inr out))
         else Some (Inr out))
       (py_range 0 n) out0"

definition c2 :: "(adjacency \<Rightarrow> igraph) \<Rightarrow> BXGraphCyc \<Rightarrow> BXGraphCyc list outcome" where
  "c2 ig bgc =
     obind (returned (find_c1_vertices bgc)) (\<lambda>c1_vertices.
       case c1_vertices of
         None \<Rightarrow> Some (Inr [])
       | Some (a, b, c, x) \<Rightarrow>
           obind (returned (gen_igraph ig bgc)) (\<lambda>g.
             let n = size_bx bgc
             in ofold (\<lambda>d out.
                    if d \<notin> {a, b, c, x} then
                      obind (returned (conn bgc a d)) (\<lambda>r.
                        if r \<and> \<not> any_chording_paths bgc g [(a, b), (a, c), (b, d), (c, d)]
                                   [(b, x), (c, x), (a, x), (a, d)] then
                          obind (coext_child bgc ''c2''
                                   [Inr AddVertex, Inr (DelEdge a d), new_AddEdge a n,
                                    new_AddEdge d n, Inr (DelEdge x a), new_AddEdge x n]
                                   a d n x a)
                            (\<lambda>ch. c2_second bgc g a b c x d n (out @ [ch]))
                        else Some (Inr out))
                    else Some (Inr out))
                  (py_range 0 n) []))"

definition find_c3_vertices :: "'a BXGraph_scheme \<Rightarrow> error + (int \<times> int \<times> int) option" where
  "find_c3_vertices bgc =
     ebind (py_index (elements (history bgc)) (- 1)) (\<lambda>last_tx_1.
     ebind (py_index (elements (history bgc)) (- 2)) (\<lambda>last_tx_2.
       if \<not> (startswith (alg last_tx_1) (py_str ''e'') \<and> startswith (alg last_tx_2) (py_str ''e''))
       then Inr None
       else
         ebind (py_index (ops last_tx_1) 0) (\<lambda>o1.
         ebind (get_i o1) (\<lambda>v1.
         ebind (get_j o1) (\<lambda>v2.
         ebind (py_index (ops last_tx_2) 0) (\<lambda>o2.
         ebind (get_i o2) (\<lambda>v3.
         ebind (get_j o2) (\<lambda>v4.
           if v1 = v4 then Inr (Some (v2, v1, v3))
           else if v1 = v3 then Inr (Some (v2, v1, v4))
           else if v2 = v3 then Inr (Some (v1, v2, v4))
           else if v2 = v4 then Inr (Some (v1, v2, v3))
           else Inr None))))))))"

definition c3 :: "(adjacency \<Rightarrow> igraph) \<Rightarrow> BXGraphCyc \<Rightarrow> BXGraphCyc list outcome" where
  "c3 ig bgc =
     obind (returned (find_c3_vertices bgc)) (\<lambda>c3v.
       case c3v of
         None \<Rightarrow> Some (Inr [])
       | Some (a, b, c) \<Rightarrow>
           let n = size_bx bgc
           in obind (returned (gen_igraph ig bgc)) (\<lambda>g.
                if \<not> any_chording_paths bgc g [(a, b), (b, c), (a, c)] [(a, b), (b, c)] then
                  obind (coext_child bgc ''c3''
                           [Inr AddVertex, Inr (DelEdge a b), new_AddEdge a n, new_AddEdge b n,
                            Inr (DelEdge c b), new_AddEdge c n] a b n c b)
                    (\<lambda>ch. Some (Inr [ch]))
                else Some (Inr [])))"

section \<open>Specification-level notions\<close>

text \<open>
  The graphs the system produces from a root: \<open>graph_from_root\<close> seeds, and
  \<open>apply_transformation\<close> is the only way on.
\<close>

inductive produced :: "pystr \<Rightarrow> adjacency \<Rightarrow> BXGraph \<Rightarrow> bool" for r adj where
  seed: "graph_from_root r adj = Inr g \<Longrightarrow> produced r adj g"
| step: "produced r adj g \<Longrightarrow> apply_transformation g t = Inr g' \<Longrightarrow> produced r adj g'"

text \<open>
  Replaying a history: start from the root's adjacency table and apply the recorded
  transformations in order.
\<close>

definition replay :: "pystr \<Rightarrow> adjacency \<Rightarrow> Transformation list \<Rightarrow> error + BXGraph" where
  "replay r adj ts =
     ebind (graph_from_root r adj) (efold (\<lambda>t g. apply_transformation g t) ts)"

text \<open>The prism, the default root graph, and the graph seeded from it.\<close>

definition prism :: adjacency where
  "prism = [[0, 1, 1, 1, 0, 0], [1, 0, 1, 0, 1, 0], [1, 1, 0, 0, 0, 1],
            [1, 0, 0, 0, 1, 1], [0, 1, 0, 1, 0, 1], [0, 0, 1, 1, 1, 0]]"

definition prism_graph :: BXGraph where
  "prism_graph = \<lparr>history = \<lparr>root = py_str ''pr'', elements = []\<rparr>, size_bx = 6,
                  badj = [143, 114], nedge = 9\<rparr>"

definition prism_e :: adjacency where
  "prism_e = [[0, 1, 1, 1, 1, 0], [1, 0, 1, 0, 1, 0], [1, 1, 0, 0, 0, 1],
            [1, 0, 0, 0, 1, 1], [1, 1, 0, 1, 0, 1], [0, 0, 1, 1, 1, 0]]"

definition prism_e1 :: BXGraph where
  "prism_e1 = \<lparr>history = \<lparr>root = py_str ''pr'',
                  elements = [\<lparr>alg = py_str ''e1'', ops = [AddEdge 4 0]\<rparr>]\<rparr>,
               size_bx = 6, badj = [207, 114], nedge = 10\<rparr>"

text \<open>
  The child of that graph by \<open>c1\<close> on the path \<open>0, 1, 2\<close>: a seventh vertex joined to
  the three, the two edges of the path removed.
\<close>

definition prism_c1 :: BXGraph where
  "prism_c1 = \<lparr>history = \<lparr>root = py_str ''pr'',
                  elements = [\<lparr>alg = py_str ''e1'', ops = [AddEdge 4 0]\<rparr>,
                              \<lparr>alg = py_str ''c1'',
                               ops = [AddVertex, DelEdge 0 1, AddEdge 0 6, AddEdge 1 6,
                                      DelEdge 1 2, AddEdge 2 6]\<rparr>]\<rparr>,
               size_bx = 7, badj = [202, 242, 3], nedge = 11\<rparr>"

text \<open>
  Two vertex sequences describe the same cyclic sequence up to rotation and reflection
  when one is a rotation of the other or of its reverse.
\<close>

definition cyc_equiv :: "int list \<Rightarrow> int list \<Rightarrow> bool" where
  "cyc_equiv xs ys =
     list_ex (\<lambda>k. ys = rotate k xs \<or> ys = rotate k (rev xs)) [0..<Suc (length xs)]"

text \<open>
  The orientation step on a sequence that starts with its least vertex: reflect when
  the last vertex is smaller than the second.
\<close>

definition orient :: "int list \<Rightarrow> int list" where
  "orient r = (case r of [] \<Rightarrow> [] | m # t \<Rightarrow> if t \<noteq> [] \<and> last t < hd t then m # rev t else m # t)"

text \<open>
  The edges of a path, in the order it walks them, and the chording paths of the
  specification: no edge of the path lies along the cycle, and at least one edge of
  the path joins two vertices of the cycle.
\<close>

definition path_steps :: "int list \<Rightarrow> (int \<times> int) list" where
  "path_steps path = map (\<lambda>i. (path ! i, path ! (i + 1))) [0..<length path - 1]"

definition chording_path :: "Cycle \<Rightarrow> int list \<Rightarrow> bool" where
  "chording_path cycle path =
     ((\<forall>e \<in> set (path_steps path). \<not> edge_lies_along_cycle cycle e)
      \<and> (\<exists>e \<in> set (path_steps path). fst e \<in> set (vlist cycle) \<and> snd e \<in> set (vlist cycle)))"

text \<open>The number of places of a cycle whose vertex is on the path.\<close>

definition shared_vertices :: "Cycle \<Rightarrow> int list \<Rightarrow> nat" where
  "shared_vertices cycle path = length (filter (\<lambda>v. v \<in> set path) (vlist cycle))"

text \<open>
  A hexagon with the chords \<open>(0, 2)\<close> and \<open>(2, 4)\<close>: the graph with all its six cycles,
  and its simple paths from \<open>0\<close> to \<open>4\<close>.
\<close>

definition hexagon :: BXGraphCyc where
  "hexagon = \<lparr>history = \<lparr>root = py_str ''hx'', elements = []\<rparr>, size_bx = 6,
               badj = [39, 71], nedge = 8,
               cycles = [Cyc [0, 1, 2], Cyc [2, 3, 4], Cyc [0, 1, 2, 3, 4, 5],
                         Cyc [0, 2, 3, 4, 5], Cyc [0, 1, 2, 4, 5], Cyc [0, 2, 4, 5]]\<rparr>"

definition hexagon_paths :: igraph where
  "hexagon_paths v1 v2 =
     (if v1 = 0 \<and> v2 = 4
      then [[0, 1, 2, 3, 4], [0, 1, 2, 4], [0, 2, 3, 4], [0, 2, 4], [0, 5, 4]]
      else [])"

text \<open>
  The square \<open>0, 1, 2, 3\<close> as a root with its one cycle; its child by \<open>e1\<close> with the
  chord \<open>(0, 2)\<close>; the child of that by \<open>e1\<close> again, with the chord \<open>(1, 3)\<close>; and a
  graph whose last transformation is \<open>c1\<close>.  Then the simple paths from \<open>0\<close> to \<open>2\<close> in
  the square with the chord \<open>(0, 2)\<close>.
\<close>

definition square_root :: BXGraphCyc where
  "square_root = \<lparr>history = \<lparr>root = py_str ''sq'', elements = []\<rparr>, size_bx = 4,
                   badj = [45], nedge = 4, cycles = [Cyc [0, 1, 2, 3]]\<rparr>"

definition square :: BXGraphCyc where
  "square = \<lparr>history = \<lparr>root = py_str ''sq'',
                          elements = [\<lparr>alg = py_str ''e1'', ops = [AddEdge 2 0]\<rparr>]\<rparr>,
              size_bx = 4, badj = [47], nedge = 5,
              cycles = [Cyc [0, 1, 2, 3], Cyc [0, 2, 3], Cyc [0, 1, 2]]\<rparr>"

definition square_k4 :: BXGraphCyc where
  "square_k4 = \<lparr>history = \<lparr>root = py_str ''sq'',
                             elements = [\<lparr>alg = py_str ''e1'', ops = [AddEdge 2 0]\<rparr>,
                                         \<lparr>alg = py_str ''e1'', ops = [AddEdge 3 1]\<rparr>]\<rparr>,
                 size_bx = 4, badj = [63], nedge = 6,
                 cycles = [Cyc [0, 1, 2, 3], Cyc [0, 1, 3], Cyc [1, 2, 3], Cyc [0, 2, 3],
                           Cyc [0, 2, 1, 3], Cyc [0, 1, 3, 2], Cyc [0, 1, 2]]\<rparr>"

definition square_c1 :: BXGraphCyc where
  "square_c1 = \<lparr>history = \<lparr>root = py_str ''sq'',
                             elements = [\<lparr>alg = py_str ''e1'', ops = [AddEdge 2 0]\<rparr>,
                                         \<lparr>alg = py_str ''c1'',
                                          ops = [AddVertex, DelEdge 2 0, AddEdge 2 4, AddEdge 0 4,
                                                 DelEdge 0 1, AddEdge 1 4]\<rparr>]\<rparr>,
                 size_bx = 5, badj = [236, 1], nedge = 6,
                 cycles = [Cyc [0, 3, 2, 1, 4], Cyc [0, 3, 2, 4], Cyc [1, 2, 4]]\<rparr>"

text \<open>An igraph object that finds no path at all.\<close>

definition no_paths :: "adjacency \<Rightarrow> igraph" where
  "no_paths adj v1 v2 = []"

definition square_paths :: igraph where
  "square_paths v1 v2 = (if v1 = 0 \<and> v2 = 2 then [[0, 1, 2], [0, 2], [0, 3, 2]] else [])"

text \<open>The patterns that \<open>apply_move_edge\<close> rewrites, in the order of its branches.\<close>

definition rewrite_patterns :: "string set" where
  "rewrite_patterns = {''a*b'', ''a*c*'', ''a*c*b'', ''a*cb'', ''ab*'', ''ab*c*'', ''abc*''}"

text \<open>An outcome is settled when the code returns or raises \<open>ValueError\<close>.\<close>

definition settled :: "'a outcome \<Rightarrow> bool" where
  "settled m = (m = Some (Inl ValueError) \<or> (\<exists>x. m = Some (Inr x)))"







text \<open>
  The adjacency bits in the words of the specification: the pair \<open>(i, j)\<close> with
  \<open>j < i\<close> is bit \<open>i * (i - 1) / 2 + j\<close>, eight bits to a byte, the first bit the
  lowest.  \<open>tri_pairs n\<close> lists the pairs of a graph of size \<open>n\<close> in that order.
\<close>

definition tri_pairs :: "int \<Rightarrow> (int \<times> int) list" where
  "tri_pairs n = concat (map (\<lambda>i. map (Pair i) (py_range 0 i)) (py_range 1 n))"

definition byte_of :: "bool list \<Rightarrow> nat" where
  "byte_of bs = foldr (\<lambda>b acc. of_bool b + 2 * acc) bs 0"

fun pack_bits :: "bool list \<Rightarrow> bytes" where
  "pack_bits bs = (if bs = [] then [] else byte_of (take 8 bs) # pack_bits (drop 8 bs))"

declare pack_bits.simps [simp del]

definition adjacency_bits :: "int \<Rightarrow> (int \<times> int) set \<Rightarrow> bytes" where
  "adjacency_bits n E = pack_bits (map (\<lambda>p. p \<in> E) (tri_pairs n))"

text \<open>
  The replay of a history in the words of the specification.  A graph is its size and
  the set of its connected pairs, the larger vertex first.  \<open>AddVertex\<close> appends a
  vertex, \<open>AddEdge\<close> connects a pair and \<open>DelEdge\<close> disconnects one; the vertices that a
  transformation adds are there before its edges are edited.  A negative id counts
  from the end, as an index of Python does.  The edges of the root are the pairs that
  its table marks with \<open>1\<close> below the diagonal.
\<close>

definition vertex_id :: "int \<Rightarrow> int \<Rightarrow> int" where
  "vertex_id n i = (if i < 0 then i + n else i)"

definition pair_of :: "int \<Rightarrow> int \<Rightarrow> int \<times> int" where
  "pair_of i j = (max i j, min i j)"

fun replay_op :: "int \<Rightarrow> Operation \<Rightarrow> (int \<times> int) set \<Rightarrow> (int \<times> int) set" where
  "replay_op n (AddEdge i j) E = insert (pair_of (vertex_id n i) (vertex_id n j)) E"
| "replay_op n (DelEdge i j) E = E - {pair_of (vertex_id n i) (vertex_id n j)}"
| "replay_op n AddVertex E = E"

definition replay_tx :: "Transformation \<Rightarrow> int \<times> (int \<times> int) set \<Rightarrow> int \<times> (int \<times> int) set" where
  "replay_tx t st =
     (let n = fst st + int (length (filter (\<lambda>x. x = AddVertex) (ops t)))
      in (n, fold (replay_op n) (ops t) (snd st)))"

definition root_edges :: "adjacency \<Rightarrow> (int \<times> int) set" where
  "root_edges adj =
     set (filter (\<lambda>p. adj ! nat (fst p) ! nat (snd p) = 1) (tri_pairs (int (length adj))))"

definition replay_history :: "adjacency \<Rightarrow> Transformation list \<Rightarrow> int \<times> (int \<times> int) set" where
  "replay_history adj ts = fold replay_tx ts (int (length adj), root_edges adj)"

text \<open>
  A working table of \<open>N\<close> rows and columns, and the pairs that its lower triangle
  marks as connected.
\<close>

definition table :: "nat \<Rightarrow> adjacency \<Rightarrow> bool" where
  "table N M = (length M = N \<and> (\<forall>r\<in>set M. length r = N))"

definition lower_edges :: "nat \<Rightarrow> adjacency \<Rightarrow> (int \<times> int) set \<Rightarrow> bool" where
  "lower_edges N M E = (\<forall>i j. j < i \<and> i < N \<longrightarrow> (M ! i ! j = 1 \<longleftrightarrow> (int i, int j) \<in> E))"

section \<open>Properties: the error monad\<close>

lemma ebind_Inr_iff: "ebind m f = Inr y \<longleftrightarrow> (\<exists>x. m = Inr x \<and> f x = Inr y)"
  by (cases m) (simp_all add: ebind_def)

lemma ebind_Inl [simp]: "ebind (Inl e) f = Inl e"
  by (simp add: ebind_def)

lemma ebind_Inr [simp]: "ebind (Inr x) f = f x"
  by (simp add: ebind_def)

lemma efold_append: "efold f (xs @ ys) s = ebind (efold f xs s) (efold f ys)"
  by (induction xs arbitrary: s) (auto simp: ebind_def split: sum.splits)

lemma efold_Inr_step:
  "efold f xs s = Inr s' \<Longrightarrow> x \<in> set xs \<Longrightarrow> \<exists>s1 s2. f x s1 = Inr s2"
proof (induction xs arbitrary: s)
  case Nil
  then show ?case by simp
next
  case (Cons a xs)
  from Cons.prems(1) obtain s1 where a: "f a s = Inr s1" and r: "efold f xs s1 = Inr s'"
    by (auto simp: ebind_Inr_iff)
  show ?case
  proof (cases "x = a")
    case True
    with a show ?thesis by blast
  next
    case False
    with Cons.prems(2) have "x \<in> set xs" by simp
    from Cons.IH[OF r this] show ?thesis .
  qed
qed

section \<open>Properties: the adjacency query\<close>

lemma are_conn_sym: "are_conn b n i j = are_conn b n j i"
  by (auto simp: are_conn_def)

lemma count_edges_defined:
  assumes "count_edges b n = Inr c" and "0 \<le> j" and "j < i" and "i < n"
  shows "\<exists>v. are_conn b n i j = Inr v"
proof -
  have i: "i \<in> set (py_range 1 n)" using assms by (simp add: py_range_def)
  have j: "j \<in> set (py_range 0 i)" using assms by (simp add: py_range_def)
  from efold_Inr_step[OF assms(1)[unfolded count_edges_def] i]
  obtain s1 s2 :: int
    where "efold (\<lambda>j c. ebind (are_conn b n i j) (\<lambda>r. Inr (if r then c + 1 else c)))
             (py_range 0 i) s1 = Inr s2"
    by blast
  from efold_Inr_step[OF this j] show ?thesis
    by (auto simp: ebind_Inr_iff)
qed

text \<open>
  C10.  A \<open>BXGraph\<close> of size \<open>n\<close> is what the constructor returned.  For \<open>i\<close> and \<open>j\<close> in
  \<open>0..n-1\<close> the query \<open>conn(i, j)\<close> returns a value, the same as \<open>conn(j, i)\<close>, and
  \<open>False\<close> when \<open>i = j\<close>; for \<open>i\<close> or \<open>j\<close> outside \<open>0..n-1\<close> it raises \<open>IndexError\<close>.
\<close>

theorem conn_total_symmetric:
  assumes "new_BXGraph h n b = Inr g"
  shows "(0 \<le> i \<and> i < n \<and> 0 \<le> j \<and> j < n \<longrightarrow>
           (\<exists>v. conn g i j = Inr v \<and> conn g j i = Inr v \<and> (i = j \<longrightarrow> \<not> v)))
       \<and> (i < 0 \<or> n \<le> i \<or> j < 0 \<or> n \<le> j \<longrightarrow> conn g i j = Inl IndexError)"
proof -
  from assms obtain c where c: "count_edges b n = Inr c"
    and g: "g = \<lparr>history = h, size_bx = n, badj = b, nedge = c\<rparr>"
    by (auto simp: new_BXGraph_def ebind_Inr_iff)
  have cn: "conn g i j = are_conn b n i j" "conn g j i = are_conn b n j i"
    by (simp_all add: conn_def g)
  have out: "i < 0 \<or> n \<le> i \<or> j < 0 \<or> n \<le> j \<Longrightarrow> are_conn b n i j = Inl IndexError"
    by (auto simp: are_conn_def)
  have inr: "\<exists>v. are_conn b n i j = Inr v \<and> (i = j \<longrightarrow> \<not> v)"
    if r: "0 \<le> i" "i < n" "0 \<le> j" "j < n"
  proof -
    consider "i = j" | "j < i" | "i < j" by linarith
    then show ?thesis
    proof cases
      case 1
      with r have "are_conn b n i j = Inr False" by (simp add: are_conn_def)
      then show ?thesis by blast
    next
      case 2
      with count_edges_defined[OF c r(3) 2 r(2)] show ?thesis by auto
    next
      case 3
      with count_edges_defined[OF c r(1) 3 r(4)] show ?thesis
        by (auto simp: are_conn_sym[of b n i j])
    qed
  qed
  show ?thesis
    using out inr by (auto simp: cn are_conn_sym[of b n j i])
qed

lemma prism_graph_new:
  "new_BXGraph \<lparr>root = py_str ''pr'', elements = []\<rparr> 6 [143, 114] = Inr prism_graph"
  by code_simp

theorem conn_total_symmetric_witness:
  "new_BXGraph \<lparr>root = py_str ''pr'', elements = []\<rparr> 6 [143, 114] = Inr prism_graph
   \<and> conn prism_graph 4 1 = Inr True \<and> conn prism_graph 1 4 = Inr True
   \<and> conn prism_graph 3 3 = Inr False \<and> conn prism_graph 6 0 = Inl IndexError
   \<and> conn prism_graph 0 (- 1) = Inl IndexError"
proof -
  have a: "conn prism_graph 4 1 = Inr True" "conn prism_graph 3 3 = Inr False"
    by code_simp+
  from conn_total_symmetric[OF prism_graph_new, of 4 1] a(1)
  have b: "conn prism_graph 1 4 = Inr True" by auto
  from conn_total_symmetric[OF prism_graph_new, of 6 0]
  have c: "conn prism_graph 6 0 = Inl IndexError" by simp
  from conn_total_symmetric[OF prism_graph_new, of 0 "- 1"]
  have d: "conn prism_graph 0 (- 1) = Inl IndexError" by simp
  show ?thesis using prism_graph_new a b c d by simp
qed

section \<open>Properties: applying and replaying transformations\<close>

text \<open>
  C8.  When the loop of \<open>apply_transformation\<close> reaches an \<open>AddEdge\<close> whose pair the
  working table holds as connected, or a \<open>DelEdge\<close> whose pair it holds as not
  connected, the call raises \<open>ValueError\<close> and returns no graph.  The working table at
  that point is the decoded table of the graph after the operations before it.
\<close>

theorem apply_transformation_rejects_bad_edit:
  assumes "ops t = pre @ e # post"
    and "ext_adj_from_bytes (badj g) (size_bx g) (count_ext (ops t)) = Inr adj0"
    and "efold apply_op pre adj0 = Inr adj1"
    and "(\<exists>i j. e = AddEdge i j \<and> adj_get adj1 i j = Inr 1)
       \<or> (\<exists>i j. e = DelEdge i j \<and> adj_get adj1 i j = Inr 0)"
  shows "apply_transformation g t = Inl ValueError"
proof -
  from assms(4) have "apply_op e adj1 = Inl ValueError"
    by auto
  then have "efold apply_op (ops t) adj0 = Inl ValueError"
    by (simp add: assms(1,3) efold_append)
  then show ?thesis
    by (simp add: apply_transformation_def Let_def assms(2))
qed

theorem apply_transformation_rejects_bad_edit_witness:
  "ext_adj_from_bytes (badj prism_graph) (size_bx prism_graph) 0 = Inr prism
   \<and> efold apply_op [AddEdge 4 0] prism = Inr prism_e
   \<and> adj_get prism_e 0 4 = Inr 1
   \<and> apply_transformation prism_graph
        \<lparr>alg = py_str ''e1'', ops = [AddEdge 4 0, AddEdge 0 4]\<rparr> = Inl ValueError
   \<and> adj_get prism 0 5 = Inr 0
   \<and> apply_transformation prism_graph
        \<lparr>alg = py_str ''c1'', ops = [DelEdge 0 5]\<rparr> = Inl ValueError"
proof -
  have a: "ext_adj_from_bytes (badj prism_graph) (size_bx prism_graph) 0 = Inr prism"
    by code_simp
  have b: "efold apply_op [AddEdge 4 0] prism = Inr prism_e"
    by code_simp
  have c: "adj_get prism_e 0 4 = Inr 1" "adj_get prism 0 5 = Inr 0"
    by code_simp+
  have d: "efold apply_op [] prism = Inr prism" by simp
  let ?t1 = "\<lparr>alg = py_str ''e1'', ops = [AddEdge 4 0, AddEdge 0 4]\<rparr>"
  let ?t2 = "\<lparr>alg = py_str ''c1'', ops = [DelEdge 0 5]\<rparr>"
  have o1: "ops ?t1 = [AddEdge 4 0] @ AddEdge 0 4 # []" by simp
  have x1: "ext_adj_from_bytes (badj prism_graph) (size_bx prism_graph) (count_ext (ops ?t1))
              = Inr prism"
    using a by (simp add: count_ext_def)
  have h1: "(\<exists>i j. AddEdge 0 4 = AddEdge i j \<and> adj_get prism_e i j = Inr 1)
          \<or> (\<exists>i j. AddEdge 0 4 = DelEdge i j \<and> adj_get prism_e i j = Inr 0)"
    using c by simp
  have o2: "ops ?t2 = [] @ DelEdge 0 5 # []" by simp
  have x2: "ext_adj_from_bytes (badj prism_graph) (size_bx prism_graph) (count_ext (ops ?t2))
              = Inr prism"
    using a by (simp add: count_ext_def)
  have h2: "(\<exists>i j. DelEdge 0 5 = AddEdge i j \<and> adj_get prism i j = Inr 1)
          \<or> (\<exists>i j. DelEdge 0 5 = DelEdge i j \<and> adj_get prism i j = Inr 0)"
    using c by simp
  note apply_transformation_rejects_bad_edit[OF o1 x1 b h1]
    apply_transformation_rejects_bad_edit[OF o2 x2 d h2]
  then show ?thesis using a b c by simp
qed

lemma graph_from_root_history:
  "graph_from_root r adj = Inr g \<Longrightarrow> history g = \<lparr>root = r, elements = []\<rparr>"
  by (auto simp: graph_from_root_def new_BXGraph_def ebind_Inr_iff)

lemma apply_transformation_history:
  "apply_transformation g t = Inr g' \<Longrightarrow>
     history g' = \<lparr>root = root (history g), elements = elements (history g) @ [t]\<rparr>"
  by (auto simp: apply_transformation_def Let_def new_BXGraph_def ebind_Inr_iff)

lemma replay_produced:
  "produced r adj g \<Longrightarrow> replay r adj (elements (history g)) = Inr g \<and> root (history g) = r"
proof (induction rule: produced.induct)
  case (seed g)
  then show ?case
    by (simp add: replay_def graph_from_root_history)
next
  case (step g t g')
  from step.IH obtain g0 where g0: "graph_from_root r adj = Inr g0"
    and f: "efold (\<lambda>t g. apply_transformation g t) (elements (history g)) g0 = Inr g"
    by (auto simp: replay_def ebind_Inr_iff)
  have h: "history g' = \<lparr>root = root (history g), elements = elements (history g) @ [t]\<rparr>"
    by (rule apply_transformation_history[OF step.hyps(2)])
  have "replay r adj (elements (history g) @ [t]) = Inr g'"
    by (simp add: replay_def g0 efold_append f step.hyps(2))
  with step.IH show ?case
    by (simp add: h)
qed

lemma prism_graph_root: "graph_from_root (py_str ''pr'') prism = Inr prism_graph"
  by code_simp

lemma prism_e1_step:
  "apply_transformation prism_graph \<lparr>alg = py_str ''e1'', ops = [AddEdge 4 0]\<rparr> = Inr prism_e1"
  by code_simp

section \<open>Properties: canonical cycles\<close>

lemma cyc_equiv_iff: "cyc_equiv xs ys \<longleftrightarrow> (\<exists>k. ys = rotate k xs \<or> ys = rotate k (rev xs))"
proof
  assume "cyc_equiv xs ys"
  then show "\<exists>k. ys = rotate k xs \<or> ys = rotate k (rev xs)"
    unfolding cyc_equiv_def list_ex_iff by blast
next
  assume "\<exists>k. ys = rotate k xs \<or> ys = rotate k (rev xs)"
  then obtain k where k: "ys = rotate k xs \<or> ys = rotate k (rev xs)" by blast
  show "cyc_equiv xs ys"
  proof (cases "xs = []")
    case True
    with k show ?thesis by (simp add: cyc_equiv_def)
  next
    case False
    then have m: "k mod length xs \<in> set [0..<Suc (length xs)]"
      by (simp add: less_Suc_eq)
    from k have "ys = rotate (k mod length xs) xs \<or> ys = rotate (k mod length xs) (rev xs)"
      using rotate_conv_mod[of k xs] rotate_conv_mod[of k "rev xs"] by simp
    with m show ?thesis
      unfolding cyc_equiv_def list_ex_iff by blast
  qed
qed

lemma arg_min_loop_Some:
  "arg_min_loop xs k (Some (mv, mi)) = Some (v, i) \<Longrightarrow>
     v \<le> mv \<and> (\<forall>y \<in> set xs. v \<le> y)
     \<and> ((i = mi \<and> v = mv) \<or> (k \<le> i \<and> i - k < length xs \<and> xs ! (i - k) = v))"
proof (induction xs arbitrary: k mv mi)
  case Nil
  then show ?case by simp
next
  case (Cons x xs)
  show ?case
  proof (cases "x < mv")
    case True
    with Cons.prems have "arg_min_loop xs (Suc k) (Some (x, k)) = Some (v, i)" by simp
    from Cons.IH[OF this] True show ?thesis
      by (auto simp: nth_Cons' Suc_diff_le)
  next
    case False
    with Cons.prems have "arg_min_loop xs (Suc k) (Some (mv, mi)) = Some (v, i)" by simp
    from Cons.IH[OF this] False show ?thesis
      by (auto simp: nth_Cons' Suc_diff_le)
  qed
qed

lemma arg_min_loop_defined: "\<exists>v i. arg_min_loop xs k (Some (mv, mi)) = Some (v, i)"
  by (induction xs arbitrary: k mv mi) auto

lemma arg_min_idx_Nil: "arg_min_idx [] = None"
  by (simp add: arg_min_idx_def)

lemma arg_min_idx_Cons:
  assumes "xs \<noteq> []"
  shows "\<exists>i. arg_min_idx xs = Some i \<and> i < length xs \<and> xs ! i = Min (set xs)"
proof -
  from assms obtain x r where xs: "xs = x # r" by (cases xs) auto
  obtain v i where vi: "arg_min_loop r (Suc 0) (Some (x, 0)) = Some (v, i)"
    using arg_min_loop_defined by blast
  from arg_min_loop_Some[OF vi]
  have le: "v \<le> x" "\<forall>y \<in> set r. v \<le> y"
    and d: "(i = 0 \<and> v = x) \<or> (Suc 0 \<le> i \<and> i - Suc 0 < length r \<and> r ! (i - Suc 0) = v)"
    by auto
  from d have i: "i < length xs" and n: "xs ! i = v"
    by (auto simp: xs nth_Cons')
  have "Min (set xs) = v"
  proof (rule Min_eqI)
    show "finite (set xs)" by simp
    show "\<And>y. y \<in> set xs \<Longrightarrow> v \<le> y" using le by (auto simp: xs)
    show "v \<in> set xs" using i n by (metis nth_mem)
  qed
  moreover have "arg_min_idx xs = Some i"
    by (simp add: arg_min_idx_def xs vi)
  ultimately show ?thesis using i n by simp
qed

text \<open>The comprehension of the arranged list, in both directions.\<close>

lemma forward_map:
  assumes "i < length xs"
  shows "map (\<lambda>j. xs ! nat ((int i + j) mod int (length xs))) (py_range 0 (int (length xs)))
         = rotate i xs"
proof (rule nth_equalityI)
  show "length (map (\<lambda>j. xs ! nat ((int i + j) mod int (length xs)))
          (py_range 0 (int (length xs)))) = length (rotate i xs)"
    by (simp add: py_range_def)
next
  fix j
  assume "j < length (map (\<lambda>j. xs ! nat ((int i + j) mod int (length xs)))
          (py_range 0 (int (length xs))))"
  then have j: "j < length xs" by (simp add: py_range_def)
  have "nat ((int i + int j) mod int (length xs)) = (i + j) mod length xs"
    by (metis nat_int of_nat_add zmod_int)
  with j show "map (\<lambda>j. xs ! nat ((int i + j) mod int (length xs)))
          (py_range 0 (int (length xs))) ! j = rotate i xs ! j"
    by (simp add: py_range_def nth_rotate)
qed

lemma backward_map:
  assumes "i < length xs" and "rotate i xs = m # t"
  shows "map (\<lambda>j. xs ! nat ((int i - j) mod int (length xs))) (py_range 0 (int (length xs)))
         = m # rev t"
proof (rule nth_equalityI)
  from assms(2) have len: "length xs = Suc (length t)"
    by (metis length_Cons length_rotate)
  show "length (map (\<lambda>j. xs ! nat ((int i - j) mod int (length xs)))
          (py_range 0 (int (length xs)))) = length (m # rev t)"
    by (simp add: py_range_def len)
  fix j
  assume "j < length (map (\<lambda>j. xs ! nat ((int i - j) mod int (length xs)))
          (py_range 0 (int (length xs))))"
  then have j: "j < length xs" by (simp add: py_range_def)
  let ?n = "length xs"
  have r: "\<And>k. k < ?n \<Longrightarrow> (m # t) ! k = xs ! ((i + k) mod ?n)"
    using nth_rotate[of _ xs i] assms(2) by simp
  have lhs: "map (\<lambda>j. xs ! nat ((int i - j) mod int ?n)) (py_range 0 (int ?n)) ! j
        = xs ! nat ((int i - int j) mod int ?n)"
    using j by (simp add: py_range_def)
  show "map (\<lambda>j. xs ! nat ((int i - j) mod int (length xs)))
          (py_range 0 (int (length xs))) ! j = (m # rev t) ! j"
  proof (cases j)
    case 0
    have "xs ! i = m" using r[of 0] assms(1) by (cases xs) auto
    with 0 assms(1) show ?thesis unfolding lhs by simp
  next
    case (Suc j')
    with j len have j': "j' < length t" by simp
    have "(m # rev t) ! j = t ! (length t - Suc j')"
      using Suc j' by (simp add: rev_nth)
    also have "\<dots> = (m # t) ! (?n - j)"
      using Suc j' len by (simp add: Suc_diff_Suc)
    also have "\<dots> = xs ! ((i + (?n - j)) mod ?n)"
      using r[of "?n - j"] Suc len by simp
    also have "(i + (?n - j)) mod ?n = nat ((int i - int j) mod int ?n)"
    proof -
      have "int (i + (?n - j)) = (int i - int j) + int ?n"
        using j by (simp add: of_nat_diff)
      then have "int ((i + (?n - j)) mod ?n) = ((int i - int j) + int ?n) mod int ?n"
        by (simp only: zmod_int)
      also have "\<dots> = (int i - int j) mod int ?n"
        by simp
      finally show ?thesis by simp
    qed
    finally show ?thesis unfolding lhs by simp
  qed
qed


lemma arrange_cycle_orient:
  assumes "xs \<noteq> []"
  obtains i where "arg_min_idx xs = Some i" "i < length xs" "xs ! i = Min (set xs)"
    "arrange_cycle xs = Inr (orient (rotate i xs))"
proof -
  from arg_min_idx_Cons[OF assms] obtain i
    where i: "arg_min_idx xs = Some i" "i < length xs" "xs ! i = Min (set xs)" by blast
  let ?n = "length xs"
  obtain m t where mt: "rotate i xs = m # t"
    using assms by (cases "rotate i xs") auto
  then have len: "?n = Suc (length t)"
    by (metis length_Cons length_rotate)
  have r: "\<And>k. k < ?n \<Longrightarrow> (m # t) ! k = xs ! ((i + k) mod ?n)"
    using nth_rotate[of _ xs i] mt by simp
  have nxt: "xs ! nat ((int i + 1) mod int ?n) = (m # t) ! 1" if "t \<noteq> []"
  proof -
    have "nat ((int i + 1) mod int ?n) = (i + 1) mod ?n"
      by (metis nat_int of_nat_1 of_nat_add zmod_int)
    moreover have "1 < ?n" using that len by (cases t) auto
    ultimately show ?thesis using r[of 1] by simp
  qed
  have prv: "xs ! nat ((int i - 1) mod int ?n) = (m # t) ! (?n - 1)"
  proof -
    have "int (i + (?n - 1)) = (int i - 1) + int ?n"
      using len by simp
    then have "int ((i + (?n - 1)) mod ?n) = ((int i - 1) + int ?n) mod int ?n"
      by (simp only: zmod_int)
    then have "nat ((int i - 1) mod int ?n) = (i + (?n - 1)) mod ?n"
      by simp
    then show ?thesis using r[of "?n - 1"] len by simp
  qed
  have d: "xs ! nat ((int i - 1) mod int ?n) < xs ! nat ((int i + 1) mod int ?n)
        \<longleftrightarrow> t \<noteq> [] \<and> last t < hd t"
  proof (cases t)
    case Nil
    with len show ?thesis by simp
  next
    case (Cons a u)
    then have "(m # t) ! 1 = hd t" by simp
    moreover have "(m # t) ! (?n - 1) = last t"
      using Cons len by (simp add: last_conv_nth)
    moreover have "t \<noteq> []" using Cons by simp
    ultimately show ?thesis using nxt prv by simp
  qed
  have "arrange_cycle xs = Inr (orient (rotate i xs))"
  proof (cases "t \<noteq> [] \<and> last t < hd t")
    case True
    with d have "arrange_cycle xs
        = Inr (map (\<lambda>j. xs ! nat ((int i - j) mod int ?n)) (py_range 0 (int ?n)))"
      by (simp add: arrange_cycle_def i(1) Let_def)
    with True show ?thesis
      by (simp add: backward_map[OF i(2) mt] mt orient_def)
  next
    case False
    with d have "arrange_cycle xs
        = Inr (if i = 0 then xs
               else map (\<lambda>j. xs ! nat ((int i + j) mod int ?n)) (py_range 0 (int ?n)))"
      by (simp add: arrange_cycle_def i(1) Let_def)
    then have "arrange_cycle xs = Inr (rotate i xs)"
      by (cases "i = 0") (simp_all add: forward_map[OF i(2)])
    with False show ?thesis
      by (auto simp add: mt orient_def)
  qed
  with i show ?thesis using that by blast
qed

lemma rotation_unique:
  assumes "distinct xs" and "xs \<noteq> []" and "hd (rotate a xs) = hd (rotate b xs)"
  shows "rotate a xs = rotate b xs"
proof -
  from assms(2,3) have "xs ! (a mod length xs) = xs ! (b mod length xs)"
    by (simp add: hd_rotate_conv_nth)
  with assms(1,2) have "a mod length xs = b mod length xs"
    by (simp add: nth_eq_iff_index_eq)
  then show ?thesis
    by (metis rotate_conv_mod)
qed

lemma orient_rev:
  assumes "distinct (m # t)"
  shows "orient (m # rev t) = orient (m # t)"
proof (cases "length t \<le> 1")
  case True
  then have "rev t = t"
    by (cases t) auto
  then show ?thesis by simp
next
  case False
  then have ne: "t \<noteq> []" by auto
  have "hd t \<noteq> last t"
  proof
    assume e: "hd t = last t"
    from False ne have "t ! 0 = t ! (length t - 1)" "0 \<noteq> length t - 1" "length t - 1 < length t"
      "0 < length t"
      using e by (auto simp: hd_conv_nth last_conv_nth)
    moreover from assms have "distinct t" by simp
    ultimately show False
      using nth_eq_iff_index_eq[of t 0 "length t - 1"] by blast
  qed
  then consider "hd t < last t" | "last t < hd t" by linarith
  then show ?thesis
    by cases (simp_all add: orient_def ne hd_rev last_rev)
qed

lemma reflect_rotation:
  assumes "i < length xs" and "rotate i xs = m # t"
  shows "rotate (length t + (length xs - i mod length xs)) (rev xs) = m # rev t"
proof -
  define q where "q = length xs - i mod length xs"
  have "rev (rotate i xs) = rotate q (rev xs)"
  proof -
    have "rotate q (rev xs) = rev (rotate (length xs - q mod length xs) xs)"
      using rotate_rev[of q xs] by simp
    also have "rotate (length xs - q mod length xs) xs = rotate i xs"
      using assms(1) by (cases "i = 0") (simp_all add: q_def)
    finally show ?thesis by simp
  qed
  then have "m # rev t = rotate (length t) (rotate q (rev xs))"
    using rotate_append[of "rev t" "[m]"] by (simp add: assms(2))
  then show ?thesis
    by (simp add: rotate_rotate q_def)
qed

lemma new_Cycle_equiv:
  assumes d: "distinct xs" and ne: "xs \<noteq> []" and e: "cyc_equiv xs ys"
  shows "new_Cycle ys = new_Cycle xs"
proof -
  from e obtain k where k: "ys = rotate k xs \<or> ys = rotate k (rev xs)"
    by (auto simp: cyc_equiv_iff)
  then have sy: "set ys = set xs" and ly: "length ys = length xs" and dy: "distinct ys"
    using d by auto
  from ly ne have ney: "ys \<noteq> []" by auto
  obtain i where i: "i < length xs" "xs ! i = Min (set xs)"
    "arrange_cycle xs = Inr (orient (rotate i xs))"
    using arrange_cycle_orient[OF ne] by metis
  obtain i' where i': "i' < length ys" "ys ! i' = Min (set ys)"
    "arrange_cycle ys = Inr (orient (rotate i' ys))"
    using arrange_cycle_orient[OF ney] by metis
  obtain m t where mt: "rotate i xs = m # t"
    using ne by (cases "rotate i xs") auto
  have hx: "hd (rotate i xs) = Min (set xs)"
    using i ne by (simp add: hd_rotate_conv_nth)
  have hy: "hd (rotate i' ys) = Min (set xs)"
    using i' ney sy by (simp add: hd_rotate_conv_nth)
  have m: "m = Min (set xs)" using hx mt by simp
  have dm: "distinct (m # t)" using d mt by (metis distinct_rotate)
  from k have "orient (rotate i' ys) = orient (rotate i xs)"
  proof
    assume y: "ys = rotate k xs"
    then have "rotate i' ys = rotate (i' + k) xs" by (simp add: rotate_rotate)
    moreover have "rotate (i' + k) xs = rotate i xs"
      by (rule rotation_unique[OF d ne]) (use hx hy y in \<open>simp add: rotate_rotate\<close>)
    ultimately show ?thesis by simp
  next
    assume y: "ys = rotate k (rev xs)"
    then have a: "rotate i' ys = rotate (i' + k) (rev xs)" by (simp add: rotate_rotate)
    define q where "q = length xs - i mod length xs"
    have b: "rotate (length t + q) (rev xs) = m # rev t"
      unfolding q_def by (rule reflect_rotation[OF i(1) mt])
    have "rotate (i' + k) (rev xs) = rotate (length t + q) (rev xs)"
    proof (rule rotation_unique)
      show "distinct (rev xs)" using d by simp
      show "rev xs \<noteq> []" using ne by simp
      show "hd (rotate (i' + k) (rev xs)) = hd (rotate (length t + q) (rev xs))"
        using hy a b m by simp
    qed
    with a b have "rotate i' ys = m # rev t" by simp
    then show ?thesis using orient_rev[OF dm] mt by simp
  qed
  then show ?thesis
    by (simp add: new_Cycle_def i(3) i'(3))
qed

text \<open>
  C9.  A cycle is a sequence of pairwise distinct vertex ids of length at least 3.  For
  two such sequences that describe the same cyclic sequence up to rotation and
  reflection, the two \<open>Cycle\<close> objects are equal: the arranged tuple starts with the
  least vertex, its second vertex is the smaller of the two cyclic neighbours of the
  least one (the other is last), and it is a rotation or a reflected rotation of the
  input.  Two \<open>Cycle\<close> values are equal exactly when their tuples are.
\<close>

theorem canonical_cycle_equal:
  assumes "distinct xs" and "3 \<le> length xs" and "cyc_equiv xs ys"
  shows "(\<exists>c. new_Cycle xs = Inr c \<and> new_Cycle ys = Inr c
            \<and> hd (vlist c) = Min (set xs) \<and> vlist c ! 1 < last (vlist c)
            \<and> cyc_equiv xs (vlist c))
       \<and> (p = q \<longleftrightarrow> vlist p = vlist q)"
proof -
  from assms(2) have ne: "xs \<noteq> []" by auto
  obtain i where i: "i < length xs" "xs ! i = Min (set xs)"
    "arrange_cycle xs = Inr (orient (rotate i xs))"
    using arrange_cycle_orient[OF ne] by metis
  obtain m t where mt: "rotate i xs = m # t"
    using ne by (cases "rotate i xs") auto
  then have len: "length xs = Suc (length t)"
    by (metis length_Cons length_rotate)
  have m: "m = Min (set xs)"
    using i ne mt hd_rotate_conv_nth[OF ne, of i] by simp
  have dt: "distinct t" using assms(1) mt by (metis distinct.simps(2) distinct_rotate)
  from len assms(2) have lt: "2 \<le> length t" by simp
  then have ne_t: "t \<noteq> []" by auto
  have "hd t \<noteq> last t"
  proof
    assume "hd t = last t"
    with lt ne_t have "t ! 0 = t ! (length t - 1)" "0 \<noteq> length t - 1" "length t - 1 < length t"
      "0 < length t"
      by (auto simp: hd_conv_nth last_conv_nth)
    with dt show False
      using nth_eq_iff_index_eq[of t 0 "length t - 1"] by blast
  qed
  then consider (fwd) "hd t < last t" | (bwd) "last t < hd t" by linarith
  then have props: "hd (orient (m # t)) = m \<and> orient (m # t) ! 1 < last (orient (m # t))
      \<and> cyc_equiv xs (orient (m # t))"
  proof cases
    case fwd
    then have o: "orient (m # t) = m # t" by (simp add: orient_def)
    have "cyc_equiv xs (m # t)"
      unfolding cyc_equiv_iff using mt by metis
    with fwd ne_t show ?thesis by (simp add: o hd_conv_nth)
  next
    case bwd
    then have o: "orient (m # t) = m # rev t" by (simp add: orient_def ne_t)
    have "cyc_equiv xs (m # rev t)"
      unfolding cyc_equiv_iff using reflect_rotation[OF i(1) mt] by metis
    with bwd ne_t show ?thesis
      by (simp add: o hd_conv_nth[symmetric] hd_rev last_rev)
  qed
  have "new_Cycle xs = Inr (Cyc (orient (m # t)))"
    by (simp add: new_Cycle_def i(3) mt)
  moreover have "new_Cycle ys = new_Cycle xs"
    by (rule new_Cycle_equiv[OF assms(1) ne assms(3)])
  moreover have "p = q \<longleftrightarrow> vlist p = vlist q"
    by (cases p; cases q) simp
  ultimately show ?thesis using props m by simp
qed

theorem canonical_cycle_equal_witness:
  "distinct [0, 3, 1, 2 :: int] \<and> 3 \<le> length [0, 3, 1, 2 :: int]
   \<and> cyc_equiv [0, 3, 1, 2] [1, 3, 0, 2]
   \<and> new_Cycle [0, 3, 1, 2] = Inr (Cyc [0, 2, 1, 3])
   \<and> new_Cycle [1, 3, 0, 2] = Inr (Cyc [0, 2, 1, 3])"
proof -
  have a: "distinct [0, 3, 1, 2 :: int]" "3 \<le> length [0, 3, 1, 2 :: int]" by simp_all
  have b: "cyc_equiv [0, 3, 1, 2] [1, 3, 0, 2]" by code_simp
  have c: "new_Cycle [0, 3, 1, 2] = Inr (Cyc [0, 2, 1, 3])" by code_simp
  from canonical_cycle_equal[OF a b] c have "new_Cycle [1, 3, 0, 2] = Inr (Cyc [0, 2, 1, 3])"
    by auto
  with a b c show ?thesis by simp
qed

section \<open>Properties: subdividing an edge\<close>

lemma set_set_add [simp]: "set (set_add s x) = insert x (set s)"
  by (auto simp: set_add_def)

lemma distinct_set_add: "distinct s \<Longrightarrow> distinct (set_add s x)"
  by (simp add: set_add_def)

lemma cyc_equiv_refl: "cyc_equiv xs xs"
  unfolding cyc_equiv_iff by (metis rotate0 id_apply)

lemma rev_rotate_ex: "\<exists>j. rev (rotate k xs) = rotate j (rev xs)"
proof (cases "xs = []")
  case True
  then show ?thesis by simp
next
  case False
  define q where "q = length xs - k mod length xs"
  have "rotate q (rev xs) = rev (rotate (length xs - q mod length xs) xs)"
    using rotate_rev[of q xs] by simp
  also have "rotate (length xs - q mod length xs) xs = rotate (k mod length xs) xs"
    using False by (cases "k mod length xs = 0") (simp_all add: q_def)
  also have "\<dots> = rotate k xs"
    by (rule rotate_conv_mod[symmetric])
  finally show ?thesis by metis
qed

lemma cyc_equiv_sym: "cyc_equiv xs ys \<Longrightarrow> cyc_equiv ys xs"
proof -
  assume "cyc_equiv xs ys"
  then obtain k where k: "ys = rotate k xs \<or> ys = rotate k (rev xs)"
    by (auto simp: cyc_equiv_iff)
  have unrot: "\<exists>j. zs = rotate j (rotate k zs)" for zs :: "int list"
  proof (cases "zs = []")
    case True
    then show ?thesis by simp
  next
    case False
    have "rotate (length zs - k mod length zs) (rotate k zs)
          = rotate (length zs - k mod length zs + k mod length zs) zs"
      by (metis rotate_rotate rotate_conv_mod)
    also have "length zs - k mod length zs + k mod length zs = length zs"
      using False by (simp add: less_imp_le)
    finally show ?thesis by (metis mod_self rotate_id)
  qed
  from k show ?thesis
  proof
    assume "ys = rotate k xs"
    with unrot[of xs] show ?thesis unfolding cyc_equiv_iff by metis
  next
    assume y: "ys = rotate k (rev xs)"
    from unrot[of "rev xs"] obtain j where "rev xs = rotate j ys" using y by metis
    then have "xs = rev (rotate j ys)" by (metis rev_rev_ident)
    with rev_rotate_ex[of j ys] show ?thesis unfolding cyc_equiv_iff by metis
  qed
qed

lemma cyc_equiv_trans: "cyc_equiv xs ys \<Longrightarrow> cyc_equiv ys zs \<Longrightarrow> cyc_equiv xs zs"
proof -
  assume "cyc_equiv xs ys" "cyc_equiv ys zs"
  then obtain k l where k: "ys = rotate k xs \<or> ys = rotate k (rev xs)"
    and l: "zs = rotate l ys \<or> zs = rotate l (rev ys)"
    by (auto simp: cyc_equiv_iff)
  from rev_rotate_ex[of k xs] obtain j where j: "rev (rotate k xs) = rotate j (rev xs)" by blast
  from rev_rotate_ex[of k "rev xs"] obtain j' where j': "rev (rotate k (rev xs)) = rotate j' xs"
    by auto
  from k l j j' have "zs = rotate (l + k) xs \<or> zs = rotate (l + k) (rev xs)
      \<or> zs = rotate (l + j) (rev xs) \<or> zs = rotate (l + j') xs"
    by (auto simp: rotate_rotate)
  then show ?thesis unfolding cyc_equiv_iff by metis
qed

lemma cyc_equiv_rotate_append: "cyc_equiv (a @ b) (b @ a)"
  unfolding cyc_equiv_iff using rotate_append[of a b] by metis

lemma cyc_equiv_rev: "cyc_equiv xs (rev xs)"
  unfolding cyc_equiv_iff by (metis rotate0 id_apply)

lemma new_Cycle_cyc_equiv:
  assumes "xs \<noteq> []"
  shows "\<exists>c. new_Cycle xs = Inr c \<and> cyc_equiv xs (vlist c)"
proof -
  obtain i where i: "i < length xs" "arrange_cycle xs = Inr (orient (rotate i xs))"
    using arrange_cycle_orient[OF assms] by metis
  obtain m t where mt: "rotate i xs = m # t"
    using assms by (cases "rotate i xs") auto
  have "orient (m # t) = m # t \<or> orient (m # t) = m # rev t"
    by (simp add: orient_def)
  then have "cyc_equiv xs (orient (m # t))"
  proof
    assume "orient (m # t) = m # t"
    then show ?thesis unfolding cyc_equiv_iff using mt by metis
  next
    assume "orient (m # t) = m # rev t"
    then show ?thesis unfolding cyc_equiv_iff using reflect_rotation[OF i(1) mt] by metis
  qed
  then show ?thesis
    by (simp add: new_Cycle_def i(2) mt)
qed


lemma divide_pos_absent:
  "\<not> edge_lies_along_cycle (Cyc vl) (v1, v2) \<Longrightarrow> divide_pos vl v1 v2 = - 1"
  by (auto simp: edge_lies_along_cycle_def divide_pos_def Let_def list_ex_iff find_None_iff
      split: option.splits)

lemma divide_pos_present:
  assumes "edge_lies_along_cycle (Cyc vl) (v1, v2)"
  obtains i where "divide_pos vl v1 v2 = int i + 1" "i < length vl"
    "(vl ! i = v1 \<and> vl ! ((i + 1) mod length vl) = v2)
     \<or> (vl ! i = v2 \<and> vl ! ((i + 1) mod length vl) = v1)"
proof -
  let ?P = "\<lambda>i. let vp1 = vl ! i; vp2 = vl ! ((i + 1) mod length vl)
                 in (vp1 = v1 \<and> vp2 = v2) \<or> (vp1 = v2 \<and> vp2 = v1)"
  from assms have "\<exists>i \<in> set [0..<length vl]. ?P i"
    by (auto simp: edge_lies_along_cycle_def Let_def list_ex_iff)
  then obtain i where f: "find ?P [0..<length vl] = Some i"
    by (cases "find ?P [0..<length vl]") (auto simp: find_None_iff)
  then have "?P i" "i < length vl"
    by (auto simp: find_Some_iff)
  moreover from f have "divide_pos vl v1 v2 = int i + 1"
    by (simp add: divide_pos_def Let_def)
  ultimately show ?thesis using that by (simp add: Let_def)
qed

text \<open>Inserting \<open>w\<close> after position \<open>i\<close>, where the next vertex round the cycle is \<open>y\<close>.\<close>

lemma insert_after:
  assumes i: "i < length vl" and n: "2 \<le> length vl"
    and x: "vl ! i = x" and y: "vl ! ((i + 1) mod length vl) = y"
  shows "\<exists>rest. cyc_equiv vl (x # y # rest)
           \<and> cyc_equiv (take (Suc i) vl @ [w] @ drop (Suc i) vl) (x # w # y # rest)"
proof -
  define A where "A = take i vl"
  define B where "B = drop (Suc i) vl"
  have vl: "vl = A @ x # B"
    unfolding A_def B_def using i x id_take_nth_drop[of i vl] by simp
  have t: "take (Suc i) vl = A @ [x]"
    unfolding A_def using i x by (simp add: take_Suc_conv_app_nth)
  have lenA: "length A = i" unfolding A_def using i by simp
  have "B @ A \<noteq> []" using n vl by (cases A; cases B) auto
  then obtain y' rest where r: "B @ A = y' # rest" by (cases "B @ A") auto
  have "y' = y"
  proof (cases B)
    case Nil
    with vl lenA have "length vl = i + 1" by simp
    then have "vl ! ((i + 1) mod length vl) = vl ! 0" by simp
    also have "\<dots> = hd A" using r Nil vl by (cases A) auto
    finally show ?thesis using r Nil y by (cases A) auto
  next
    case (Cons b B')
    with vl lenA have "i + 1 < length vl" by simp
    then have "vl ! ((i + 1) mod length vl) = vl ! (i + 1)" by simp
    also have "\<dots> = b" using vl lenA Cons by (simp add: nth_append)
    finally show ?thesis using r Cons y by simp
  qed
  with r have r': "B @ A = y # rest" by simp
  have "cyc_equiv (A @ (x # B)) ((x # B) @ A)"
    by (rule cyc_equiv_rotate_append)
  then have 1: "cyc_equiv vl (x # y # rest)"
    using vl r' by simp
  have "cyc_equiv (A @ (x # w # B)) ((x # w # B) @ A)"
    by (rule cyc_equiv_rotate_append)
  then have 2: "cyc_equiv (take (Suc i) vl @ [w] @ drop (Suc i) vl) (x # w # y # rest)"
    using t r' by (simp add: B_def[symmetric])
  from 1 2 show ?thesis by blast
qed

lemma flip_pair: "cyc_equiv (y # x # rest) (x # y # rev rest)"
proof -
  have "cyc_equiv (y # x # rest) (rev (y # x # rest))" by (rule cyc_equiv_rev)
  moreover have "cyc_equiv (rev rest @ [x, y]) ([x, y] @ rev rest)"
    by (rule cyc_equiv_rotate_append)
  ultimately show ?thesis
    using cyc_equiv_trans by fastforce
qed

lemma flip_triple: "cyc_equiv (y # w # x # rest) (x # w # y # rev rest)"
proof -
  have "cyc_equiv (y # w # x # rest) (rev (y # w # x # rest))" by (rule cyc_equiv_rev)
  moreover have "cyc_equiv (rev rest @ [x, w, y]) ([x, w, y] @ rev rest)"
    by (rule cyc_equiv_rotate_append)
  ultimately show ?thesis
    using cyc_equiv_trans by fastforce
qed

lemma subdivide_cycle_present:
  assumes e: "edge_lies_along_cycle c (v1, v2)" and ne: "v1 \<noteq> v2"
  shows "\<exists>c' rest. subdivide_cycle c v1 v2 w = Inr c'
           \<and> cyc_equiv (vlist c) (v1 # v2 # rest) \<and> cyc_equiv (vlist c') (v1 # w # v2 # rest)"
proof -
  obtain vl where c: "c = Cyc vl" by (cases c)
  from e obtain i where p: "divide_pos vl v1 v2 = int i + 1" and i: "i < length vl"
    and adj: "(vl ! i = v1 \<and> vl ! ((i + 1) mod length vl) = v2)
            \<or> (vl ! i = v2 \<and> vl ! ((i + 1) mod length vl) = v1)"
    using divide_pos_present[of vl v1 v2] unfolding c by metis
  have n: "2 \<le> length vl"
  proof (rule ccontr)
    assume "\<not> 2 \<le> length vl"
    with i have "length vl = 1" "i = 0" by auto
    with adj ne show False by auto
  qed
  let ?L = "take (Suc i) vl @ [w] @ drop (Suc i) vl"
  have sub: "subdivide_cycle c v1 v2 w = new_Cycle ?L"
  proof -
    have "nat (int i + 1) = Suc i" by simp
    then show ?thesis
      using i by (auto simp: subdivide_cycle_def c p Let_def py_take_def py_drop_def py_clamp_def)
  qed
  obtain c' where c': "new_Cycle ?L = Inr c'" and eq: "cyc_equiv ?L (vlist c')"
    using new_Cycle_cyc_equiv[of ?L] by auto
  from adj obtain rest where "cyc_equiv vl (v1 # v2 # rest)" "cyc_equiv ?L (v1 # w # v2 # rest)"
  proof
    assume "vl ! i = v1 \<and> vl ! ((i + 1) mod length vl) = v2"
    with insert_after[OF i n, of v1 v2 w] that show ?thesis by blast
  next
    assume "vl ! i = v2 \<and> vl ! ((i + 1) mod length vl) = v1"
    with insert_after[OF i n, of v2 v1 w] obtain rest
      where "cyc_equiv vl (v2 # v1 # rest)" "cyc_equiv ?L (v2 # w # v1 # rest)" by blast
    then have "cyc_equiv vl (v1 # v2 # rev rest)" "cyc_equiv ?L (v1 # w # v2 # rev rest)"
      using flip_pair flip_triple cyc_equiv_trans by blast+
    with that show ?thesis by blast
  qed
  moreover from eq have "cyc_equiv (vlist c') ?L" by (rule cyc_equiv_sym)
  ultimately show ?thesis
    using cyc_equiv_trans sub c' c by (metis Cycle.sel)
qed

lemma subdivide_cycle_absent:
  "\<not> edge_lies_along_cycle c (v1, v2) \<Longrightarrow> subdivide_cycle c v1 v2 w = Inr c"
  using divide_pos_absent[of "vlist c" v1 v2]
  by (cases c) (simp add: subdivide_cycle_def)

lemma efold_collect:
  assumes "\<forall>c \<in> set cs. f c = Inr (g c)"
  shows "\<exists>r. efold (\<lambda>c r. ebind (f c) (\<lambda>y. Inr (set_add r y))) cs r0 = Inr r
           \<and> set r = set r0 \<union> g ` set cs"
  using assms
proof (induction cs arbitrary: r0)
  case Nil
  then show ?case by simp
next
  case (Cons c cs)
  then have "f c = Inr (g c)" and rest: "\<forall>c \<in> set cs. f c = Inr (g c)" by simp_all
  from Cons.IH[OF rest, of "set_add r0 (g c)"] \<open>f c = Inr (g c)\<close>
  show ?case by auto
qed

lemma subdivide_cycle_total:
  assumes "v1 \<noteq> v2"
  shows "\<exists>c'. subdivide_cycle c v1 v2 w = Inr c'"
  using subdivide_cycle_present[OF _ assms, of c w] subdivide_cycle_absent[of c v1 v2 w]
  by (cases "edge_lies_along_cycle c (v1, v2)") auto

text \<open>
  C4.  For an edge \<open>(v1, v2)\<close> with \<open>v1 \<noteq> v2\<close>, \<open>apply_subdivide_edge\<close> returns a set of
  cycles in which every input cycle that has \<open>v1\<close> and \<open>v2\<close> cyclically adjacent, in
  either orientation, is replaced by the cycle with that adjacency replaced by
  \<open>v1, w, v2\<close>, every other input cycle is kept as it is, and nothing else is present.
  Subdividing the edge \<open>(0, 1)\<close> of the triangle \<open>0, 1, 2\<close> with the new vertex \<open>3\<close> gives
  exactly the 4-cycle \<open>0, 3, 1, 2\<close>, stored as \<open>(0, 2, 1, 3)\<close>; the triangle is gone.
\<close>

theorem subdivide_edge_correct:
  assumes "v1 \<noteq> v2"
  shows "(\<exists>res. apply_subdivide_edge cs v1 v2 w = Inr res
            \<and> (\<forall>c \<in> set cs.
                  if edge_lies_along_cycle c (v1, v2)
                  then \<exists>c' \<in> set res. \<exists>rest. cyc_equiv (vlist c) (v1 # v2 # rest)
                         \<and> cyc_equiv (vlist c') (v1 # w # v2 # rest)
                  else c \<in> set res)
            \<and> (\<forall>c' \<in> set res. \<exists>c \<in> set cs.
                  if edge_lies_along_cycle c (v1, v2)
                  then \<exists>rest. cyc_equiv (vlist c) (v1 # v2 # rest)
                         \<and> cyc_equiv (vlist c') (v1 # w # v2 # rest)
                  else c' = c))
       \<and> apply_subdivide_edge [Cyc [0, 1, 2]] 0 1 3 = Inr [Cyc [0, 2, 1, 3]]
       \<and> cyc_equiv [0, 3, 1, 2] [0, 2, 1, 3]"
proof -
  define g where "g c = (SOME c'. subdivide_cycle c v1 v2 w = Inr c')" for c
  have g: "subdivide_cycle c v1 v2 w = Inr (g c)" for c
    unfolding g_def using subdivide_cycle_total[OF assms, of c w] by (rule someI_ex)
  from efold_collect[of cs "\<lambda>c. subdivide_cycle c v1 v2 w" g "[]"] g
  obtain res where res: "apply_subdivide_edge cs v1 v2 w = Inr res"
    and sr: "set res = g ` set cs"
    by (auto simp: apply_subdivide_edge_def)
  have rel: "if edge_lies_along_cycle c (v1, v2)
             then \<exists>rest. cyc_equiv (vlist c) (v1 # v2 # rest)
                    \<and> cyc_equiv (vlist (g c)) (v1 # w # v2 # rest)
             else g c = c" for c
  proof (cases "edge_lies_along_cycle c (v1, v2)")
    case True
    from subdivide_cycle_present[OF True assms, of w] g[of c] True show ?thesis by auto
  next
    case False
    from subdivide_cycle_absent[OF False, of w] g[of c] False show ?thesis by simp
  qed
  have 1: "\<forall>c \<in> set cs.
             if edge_lies_along_cycle c (v1, v2)
             then \<exists>c' \<in> set res. \<exists>rest. cyc_equiv (vlist c) (v1 # v2 # rest)
                    \<and> cyc_equiv (vlist c') (v1 # w # v2 # rest)
             else c \<in> set res"
  proof
    fix c assume c: "c \<in> set cs"
    then have "g c \<in> set res" by (simp add: sr)
    with rel[of c] show "if edge_lies_along_cycle c (v1, v2)
             then \<exists>c' \<in> set res. \<exists>rest. cyc_equiv (vlist c) (v1 # v2 # rest)
                    \<and> cyc_equiv (vlist c') (v1 # w # v2 # rest)
             else c \<in> set res"
      by (cases "edge_lies_along_cycle c (v1, v2)") auto
  qed
  have 2: "\<forall>c' \<in> set res. \<exists>c \<in> set cs.
             if edge_lies_along_cycle c (v1, v2)
             then \<exists>rest. cyc_equiv (vlist c) (v1 # v2 # rest)
                    \<and> cyc_equiv (vlist c') (v1 # w # v2 # rest)
             else c' = c"
  proof
    fix c' assume "c' \<in> set res"
    then obtain c where c: "c \<in> set cs" "c' = g c" by (auto simp: sr)
    with rel[of c] show "\<exists>c \<in> set cs.
             if edge_lies_along_cycle c (v1, v2)
             then \<exists>rest. cyc_equiv (vlist c) (v1 # v2 # rest)
                    \<and> cyc_equiv (vlist c') (v1 # w # v2 # rest)
             else c' = c"
      by (intro bexI[of _ c]) auto
  qed
  have 3: "apply_subdivide_edge [Cyc [0, 1, 2]] 0 1 3 = Inr [Cyc [0, 2, 1, 3]]"
    by code_simp
  have 4: "cyc_equiv [0, 3, 1, 2] [0, 2, 1, 3]"
    by code_simp
  from res 1 2 3 4 show ?thesis by blast
qed

theorem subdivide_edge_correct_witness:
  "apply_subdivide_edge [Cyc [0, 1, 2, 3], Cyc [0, 3, 4]] 0 1 5
     = Inr [Cyc [0, 3, 2, 1, 5], Cyc [0, 3, 4]]
   \<and> edge_lies_along_cycle (Cyc [0, 1, 2, 3]) (0, 1)
   \<and> \<not> edge_lies_along_cycle (Cyc [0, 3, 4]) (0, 1)
   \<and> cyc_equiv [0, 1, 2, 3] [0, 1, 2, 3] \<and> cyc_equiv [0, 3, 2, 1, 5] [0, 5, 1, 2, 3]
   \<and> apply_subdivide_edge [Cyc [0, 1, 2]] 0 1 3 = Inr [Cyc [0, 2, 1, 3]]"
proof -
  have a: "apply_subdivide_edge [Cyc [0, 1, 2, 3], Cyc [0, 3, 4]] 0 1 5
     = Inr [Cyc [0, 3, 2, 1, 5], Cyc [0, 3, 4]]" by code_simp
  have b: "edge_lies_along_cycle (Cyc [0, 1, 2, 3]) (0, 1)"
    "\<not> edge_lies_along_cycle (Cyc [0, 3, 4]) (0, 1)"
    "cyc_equiv [0, 1, 2, 3] [0, 1, 2, 3]" "cyc_equiv [0, 3, 2, 1, 5] [0, 5, 1, 2, 3]"
    by code_simp+
  have "(0::int) \<noteq> 1" by simp
  from subdivide_edge_correct[OF this, of "[Cyc [0, 1, 2, 3], Cyc [0, 3, 4]]" 5]
  have "apply_subdivide_edge [Cyc [0, 1, 2]] 0 1 3 = Inr [Cyc [0, 2, 1, 3]]" by blast
  with a b show ?thesis by simp
qed

section \<open>Properties: adding an edge\<close>

lemma efold_grows:
  assumes "\<And>x s s'. f x s = Inr s' \<Longrightarrow> set s \<subseteq> set s'"
  shows "efold f xs s = Inr s' \<Longrightarrow> set s \<subseteq> set s'"
proof (induction xs arbitrary: s)
  case Nil
  then show ?case by simp
next
  case (Cons x xs)
  then obtain s1 where "f x s = Inr s1" "efold f xs s1 = Inr s'"
    by (auto simp: ebind_Inr_iff)
  with assms[of x s s1] Cons.IH[of s1] show ?case by blast
qed

lemma efold_retains:
  assumes "\<And>x s s'. f x s = Inr s' \<Longrightarrow> insert x (set s) \<subseteq> set s'"
  shows "efold f xs s = Inr s' \<Longrightarrow> set xs \<union> set s \<subseteq> set s'"
proof (induction xs arbitrary: s)
  case Nil
  then show ?case by simp
next
  case (Cons x xs)
  then obtain s1 where "f x s = Inr s1" "efold f xs s1 = Inr s'"
    by (auto simp: ebind_Inr_iff)
  with assms[of x s s1] Cons.IH[of s1] show ?case by auto
qed

lemma add_corner_grows:
  "add_corner vl conn_f here nb pos v result = Inr r \<Longrightarrow> set result \<subseteq> set r"
  by (auto simp: add_corner_def ebind_Inr_iff split: if_splits)

lemma add_corners_grows:
  "add_corners vl v1 v2 conn_f i result = Inr r \<Longrightarrow> set result \<subseteq> set r"
  unfolding add_corners_def Let_def
  by (auto simp: ebind_Inr_iff dest!: add_corner_grows)

lemma add_edge_cycle_retains:
  assumes "add_edge_cycle v1 v2 conn_f c result0 = Inr r"
  shows "insert c (set result0) \<subseteq> set r"
proof -
  let ?vc = "length (filter (\<lambda>v. v = v1 \<or> v = v2) (vlist c))"
  consider "?vc = 2" | "?vc = 1" | "?vc \<noteq> 2" "?vc \<noteq> 1" by blast
  then show ?thesis
  proof cases
    case 1
    with assms show ?thesis
      by (auto simp: add_edge_cycle_def Let_def ebind_Inr_iff)
  next
    case 2
    with assms have "efold (add_corners (vlist c) v1 v2 conn_f)
        (py_range 0 (int (length (vlist c)))) (set_add result0 c) = Inr r"
      by (simp add: add_edge_cycle_def Let_def)
    from efold_grows[OF add_corners_grows this] show ?thesis by simp
  next
    case 3
    with assms show ?thesis
      by (auto simp: add_edge_cycle_def Let_def)
  qed
qed

lemma new_Cycle_total: "xs \<noteq> [] \<Longrightarrow> \<exists>c. new_Cycle xs = Inr c"
  using new_Cycle_cyc_equiv by blast

lemma py_list_index_total: "v \<in> set xs \<Longrightarrow> \<exists>k. py_list_index xs v = Inr k"
proof -
  assume "v \<in> set xs"
  then obtain k where "k < length xs" "xs ! k = v" by (auto simp: in_set_conv_nth)
  then have "find (\<lambda>k. xs ! k = v) [0..<length xs] \<noteq> None"
    by (auto simp: find_None_iff)
  then show ?thesis by (auto simp: py_list_index_def)
qed

lemma splice_step_first:
  "fst (splice_step vl i1 i2 i (a, b, fl)) = (if fl then a else a @ [vl ! nat ((i + i1) mod int (length vl))])"
  by (simp add: splice_step_def Let_def)

lemma splice_fold_keep:
  "a \<noteq> [] \<Longrightarrow> fst (fold (splice_step vl i1 i2) ys (a, b, fl)) \<noteq> []"
proof (induction ys arbitrary: a b fl)
  case Nil
  then show ?case by simp
next
  case (Cons y ys)
  obtain a' b' fl' where s: "splice_step vl i1 i2 y (a, b, fl) = (a', b', fl')"
    by (cases "splice_step vl i1 i2 y (a, b, fl)") auto
  from splice_step_first[of vl i1 i2 y a b fl] s Cons.prems have "a' \<noteq> []"
    by (auto split: if_splits)
  from Cons.IH[OF this] s show ?case by simp
qed

lemma splices_total:
  assumes "v1 \<in> set vl" and "v2 \<in> set vl"
  shows "\<exists>l1 l2. splices vl v1 v2 = Inr (l1, l2) \<and> l1 \<noteq> [] \<and> l2 \<noteq> []"
proof -
  from py_list_index_total[OF assms(1)] py_list_index_total[OF assms(2)]
  obtain i1 i2 where i: "py_list_index vl v1 = Inr i1" "py_list_index vl v2 = Inr i2"
    by auto
  from assms have "0 \<le> int (length vl) - 1"
    by (cases vl) auto
  then have "[0..int (length vl) - 1] = 0 # [0 + 1..int (length vl) - 1]"
    by (rule upto_rec1)
  then obtain x r where xr: "py_range 0 (int (length vl)) = x # r"
    by (simp only: py_range_def)
  obtain a' b' fl' where s: "splice_step vl i1 i2 x ([], [], False) = (a', b', fl')"
    by (cases "splice_step vl i1 i2 x ([], [], False)") auto
  from splice_step_first[of vl i1 i2 x "[]" "[]" False] s have "a' \<noteq> []"
    by auto
  from splice_fold_keep[OF this, of vl i1 i2 r b' fl'] s
  have "fst (fold (splice_step vl i1 i2) (x # r) ([], [], False)) \<noteq> []"
    by simp
  then obtain l1 l2 fl
    where f: "fold (splice_step vl i1 i2) (py_range 0 (int (length vl))) ([], [], False) = (l1, l2, fl)"
    and l1: "l1 \<noteq> []"
    unfolding xr by (cases "fold (splice_step vl i1 i2) (x # r) ([], [], False)") auto
  have "splices vl v1 v2 = Inr (l1, l2 @ [v1])"
    using f by (simp add: splices_def i)
  with l1 show ?thesis by simp
qed

lemma follow_triangle_nonempty: "vl \<noteq> [] \<Longrightarrow> follow_triangle vl i v \<noteq> []"
  by (cases vl) (auto simp: follow_triangle_def upt_conv_Cons)

lemma add_corner_total:
  assumes "vl \<noteq> []" and "\<forall>a b. \<exists>r. conn_f a b = Inr r"
  shows "\<exists>r. add_corner vl conn_f here nb pos v result = Inr r"
proof -
  from assms(2) obtain b where b: "conn_f (vl ! nat nb) v = Inr b" by blast
  from new_Cycle_total[OF follow_triangle_nonempty[OF assms(1)]]
  obtain c where "new_Cycle (follow_triangle vl pos v) = Inr c" by blast
  with b show ?thesis by (simp add: add_corner_def)
qed

lemma add_corners_total:
  assumes "vl \<noteq> []" and "\<forall>a b. \<exists>r. conn_f a b = Inr r"
  shows "\<exists>r. add_corners vl v1 v2 conn_f i result = Inr r"
proof -
  note t = add_corner_total[OF assms]
  let ?n = "int (length vl)"
  from t obtain r1 where 1: "add_corner vl conn_f (vl ! nat i = v1) ((i - 1) mod ?n)
      ((i - 1) mod ?n) v2 result = Inr r1" by blast
  from t obtain r2 where 2: "add_corner vl conn_f (vl ! nat i = v1) ((i + 1) mod ?n)
      i v2 r1 = Inr r2" by blast
  from t obtain r3 where 3: "add_corner vl conn_f (vl ! nat i = v2) ((i - 1) mod ?n)
      ((i - 1) mod ?n) v1 r2 = Inr r3" by blast
  from t obtain r4 where 4: "add_corner vl conn_f (vl ! nat i = v2) ((i + 1) mod ?n)
      i v1 r3 = Inr r4" by blast
  show ?thesis
    by (simp add: add_corners_def Let_def 1 2 3 4)
qed

lemma efold_total:
  assumes "\<And>x s. \<exists>s'. f x s = Inr s'"
  shows "\<exists>s'. efold f xs s = Inr s'"
proof (induction xs arbitrary: s)
  case Nil
  then show ?case by simp
next
  case (Cons x xs)
  from assms[of x s] obtain s1 where "f x s = Inr s1" by blast
  with Cons.IH[of s1] show ?case by simp
qed

lemma count_distinct:
  "distinct vl \<Longrightarrow> length (filter (\<lambda>v. v = a) vl) = (if a \<in> set vl then 1 else 0)"
  by (induction vl) auto

lemma count_either:
  "length (filter (\<lambda>v. v = a \<or> v = b) vl)
     \<le> length (filter (\<lambda>v. v = a) vl) + length (filter (\<lambda>v. v = b) vl)"
  by (induction vl) auto

lemma two_marked:
  assumes "distinct vl" and "length (filter (\<lambda>v. v = v1 \<or> v = v2) vl) = 2"
  shows "v1 \<in> set vl \<and> v2 \<in> set vl"
  using count_either[of v1 v2 vl] count_distinct[OF assms(1), of v1]
    count_distinct[OF assms(1), of v2] assms(2)
  by (auto split: if_splits)

lemma add_edge_cycle_total:
  assumes "vlist c \<noteq> []" and "distinct (vlist c)" and "\<forall>a b. \<exists>r. conn_f a b = Inr r"
  shows "\<exists>r. add_edge_cycle v1 v2 conn_f c result0 = Inr r"
proof -
  let ?vc = "length (filter (\<lambda>v. v = v1 \<or> v = v2) (vlist c))"
  consider "?vc = 2" | "?vc = 1" | "?vc \<noteq> 2" "?vc \<noteq> 1" by blast
  then show ?thesis
  proof cases
    case 1
    from two_marked[OF assms(2) 1] splices_total[of v1 "vlist c" v2]
    obtain l1 l2 where s: "splices (vlist c) v1 v2 = Inr (l1, l2)" "l1 \<noteq> []" "l2 \<noteq> []"
      by blast
    from new_Cycle_total[OF s(2)] new_Cycle_total[OF s(3)]
    obtain a b where "new_Cycle l1 = Inr a" "new_Cycle l2 = Inr b" by blast
    with 1 s(1) show ?thesis
      by (simp add: add_edge_cycle_def Let_def)
  next
    case 2
    from efold_total[of "add_corners (vlist c) v1 v2 conn_f"] add_corners_total[OF assms(1,3)]
    obtain r where "efold (add_corners (vlist c) v1 v2 conn_f)
        (py_range 0 (int (length (vlist c)))) (set_add result0 c) = Inr r"
      by blast
    with 2 show ?thesis
      by (simp add: add_edge_cycle_def Let_def)
  next
    case 3
    then show ?thesis
      by (simp add: add_edge_cycle_def Let_def)
  qed
qed

lemma efold_total_on:
  assumes "\<And>x s. x \<in> set xs \<Longrightarrow> \<exists>s'. f x s = Inr s'"
  shows "\<exists>s'. efold f xs s = Inr s'"
  using assms
proof (induction xs arbitrary: s)
  case Nil
  then show ?case by simp
next
  case (Cons x xs)
  from Cons.prems[of x s] obtain s1 where "f x s = Inr s1" by auto
  moreover from Cons.IH[of s1] Cons.prems obtain s' where "efold f xs s1 = Inr s'" by auto
  ultimately show ?case by simp
qed

text \<open>
  C3.  Whatever \<open>apply_add_edge\<close> returns holds every input cycle; it does return when
  the input cycles are non-empty with distinct vertices and \<open>conn\<close> does not raise; and on
  the single 4-cycle \<open>0, 1, 2, 3\<close> with \<open>v1 = 0\<close>, \<open>v2 = 2\<close> it returns exactly three
  cycles: the 4-cycle and the triangles \<open>0, 1, 2\<close> and \<open>0, 2, 3\<close>.
\<close>

theorem add_edge_retains_cycles:
  "(\<forall>res. apply_add_edge cs v1 v2 conn_f = Inr res \<longrightarrow> set cs \<subseteq> set res)
   \<and> ((\<forall>c \<in> set cs. vlist c \<noteq> [] \<and> distinct (vlist c)) \<and> (\<forall>a b. \<exists>r. conn_f a b = Inr r)
        \<longrightarrow> (\<exists>res. apply_add_edge cs v1 v2 conn_f = Inr res))
   \<and> (\<exists>res. apply_add_edge [Cyc [0, 1, 2, 3]] 0 2 conn_f = Inr res
          \<and> set res = {Cyc [0, 1, 2, 3], Cyc [0, 1, 2], Cyc [0, 2, 3]} \<and> length res = 3)"
proof (intro conjI allI impI)
  fix res
  assume "apply_add_edge cs v1 v2 conn_f = Inr res"
  then have "efold (add_edge_cycle v1 v2 conn_f) cs [] = Inr res"
    by (simp add: apply_add_edge_def)
  from efold_retains[OF add_edge_cycle_retains this] show "set cs \<subseteq> set res"
    by simp
next
  assume "(\<forall>c \<in> set cs. vlist c \<noteq> [] \<and> distinct (vlist c)) \<and> (\<forall>a b. \<exists>r. conn_f a b = Inr r)"
  then have "\<And>x s. x \<in> set cs \<Longrightarrow> \<exists>s'. add_edge_cycle v1 v2 conn_f x s = Inr s'"
    using add_edge_cycle_total by blast
  from efold_total_on[of cs "add_edge_cycle v1 v2 conn_f", OF this]
  show "\<exists>res. apply_add_edge cs v1 v2 conn_f = Inr res"
    by (simp add: apply_add_edge_def)
next
  have "apply_add_edge [Cyc [0, 1, 2, 3]] 0 2 conn_f
          = Inr [Cyc [0, 1, 2, 3], Cyc [0, 1, 2], Cyc [0, 2, 3]]"
    by code_simp
  then show "\<exists>res. apply_add_edge [Cyc [0, 1, 2, 3]] 0 2 conn_f = Inr res
          \<and> set res = {Cyc [0, 1, 2, 3], Cyc [0, 1, 2], Cyc [0, 2, 3]} \<and> length res = 3"
    by simp
qed

theorem add_edge_retains_cycles_witness:
  "apply_add_edge [Cyc [0, 1, 2, 3], Cyc [0, 3, 4]] 0 2 (\<lambda>a b. Inr (a = 3 \<and> b = 2))
     = Inr [Cyc [0, 1, 2, 3], Cyc [0, 1, 2], Cyc [0, 2, 3], Cyc [0, 3, 4], Cyc [0, 2, 3, 4]]
   \<and> set [Cyc [0, 1, 2, 3], Cyc [0, 3, 4]]
      \<subseteq> set [Cyc [0, 1, 2, 3], Cyc [0, 1, 2], Cyc [0, 2, 3], Cyc [0, 3, 4], Cyc [0, 2, 3, 4]]"
proof -
  have a: "apply_add_edge [Cyc [0, 1, 2, 3], Cyc [0, 3, 4]] 0 2 (\<lambda>a b. Inr (a = 3 \<and> b = 2))
     = Inr [Cyc [0, 1, 2, 3], Cyc [0, 1, 2], Cyc [0, 2, 3], Cyc [0, 3, 4], Cyc [0, 2, 3, 4]]"
    by code_simp
  note t = add_edge_retains_cycles[of "[Cyc [0, 1, 2, 3], Cyc [0, 3, 4]]" 0 2
      "\<lambda>a b. Inr (a = 3 \<and> b = 2)", THEN conjunct1, rule_format, OF a]
  show ?thesis by (rule conjI[OF a t])
qed

section \<open>Properties: chording paths\<close>

lemma path_steps_set:
  "set (path_steps path) = {(path ! i, path ! (i + 1)) | i. i < length path - 1}"
  by (auto simp: path_steps_def)

lemma path_edges_steps:
  "path_edges path = set (path_steps path) \<union> (\<lambda>e. (snd e, fst e)) ` set (path_steps path)"
proof -
  have "set (map (\<lambda>i. (path ! (i + 1), path ! i)) [0..<length path - 1])
        = (\<lambda>e. (snd e, fst e)) ` set (path_steps path)"
    by (simp add: path_steps_def image_image)
  then show ?thesis
    by (simp add: path_edges_def path_steps_def)
qed

lemma edge_lies_along_cycle_swap:
  "edge_lies_along_cycle c (v, u) = edge_lies_along_cycle c (u, v)"
  by (auto simp: edge_lies_along_cycle_def Let_def list_ex_iff)

lemma along_cycle_pes:
  "list_ex (\<lambda>i. (vlist c ! i, vlist c ! ((i + 1) mod length (vlist c))) \<in> path_edges path)
      [0..<length (vlist c)]
   \<longleftrightarrow> (\<exists>e \<in> set (path_steps path). edge_lies_along_cycle c e)"
proof
  assume "list_ex (\<lambda>i. (vlist c ! i, vlist c ! ((i + 1) mod length (vlist c))) \<in> path_edges path)
      [0..<length (vlist c)]"
  then obtain i where i: "i < length (vlist c)"
    and m: "(vlist c ! i, vlist c ! ((i + 1) mod length (vlist c))) \<in> path_edges path"
    by (auto simp: list_ex_iff)
  from m[unfolded path_edges_steps]
  consider "(vlist c ! i, vlist c ! ((i + 1) mod length (vlist c))) \<in> set (path_steps path)"
    | "(vlist c ! ((i + 1) mod length (vlist c)), vlist c ! i) \<in> set (path_steps path)"
    by force
  then show "\<exists>e \<in> set (path_steps path). edge_lies_along_cycle c e"
  proof cases
    case 1
    moreover have "edge_lies_along_cycle c (vlist c ! i, vlist c ! ((i + 1) mod length (vlist c)))"
      using i by (auto simp: edge_lies_along_cycle_def Let_def list_ex_iff)
    ultimately show ?thesis by blast
  next
    case 2
    moreover have "edge_lies_along_cycle c (vlist c ! ((i + 1) mod length (vlist c)), vlist c ! i)"
      using i by (auto simp: edge_lies_along_cycle_def Let_def list_ex_iff)
    ultimately show ?thesis by blast
  qed
next
  assume "\<exists>e \<in> set (path_steps path). edge_lies_along_cycle c e"
  then obtain u v where e: "(u, v) \<in> set (path_steps path)" and a: "edge_lies_along_cycle c (u, v)"
    by auto
  from a obtain i where i: "i < length (vlist c)"
    and "(vlist c ! i = u \<and> vlist c ! ((i + 1) mod length (vlist c)) = v)
       \<or> (vlist c ! i = v \<and> vlist c ! ((i + 1) mod length (vlist c)) = u)"
    by (auto simp: edge_lies_along_cycle_def Let_def list_ex_iff)
  with e have "(vlist c ! i, vlist c ! ((i + 1) mod length (vlist c))) \<in> path_edges path"
    unfolding path_edges_steps by force
  with i show "list_ex (\<lambda>i. (vlist c ! i, vlist c ! ((i + 1) mod length (vlist c))) \<in> path_edges path)
      [0..<length (vlist c)]"
    by (auto simp: list_ex_iff)
qed

lemma joins_pes:
  "(\<exists>pe \<in> path_edges path. fst pe \<in> S \<and> snd pe \<in> S)
   \<longleftrightarrow> (\<exists>e \<in> set (path_steps path). fst e \<in> S \<and> snd e \<in> S)"
proof
  assume "\<exists>pe \<in> path_edges path. fst pe \<in> S \<and> snd pe \<in> S"
  then obtain pe where "pe \<in> path_edges path" and s: "fst pe \<in> S" "snd pe \<in> S" by blast
  then consider "pe \<in> set (path_steps path)"
    | e where "e \<in> set (path_steps path)" "pe = (snd e, fst e)"
    unfolding path_edges_steps by blast
  then show "\<exists>e \<in> set (path_steps path). fst e \<in> S \<and> snd e \<in> S"
  proof cases
    case 1
    with s show ?thesis by blast
  next
    case 2
    with s have "fst e \<in> S \<and> snd e \<in> S" by simp
    with 2(1) show ?thesis by blast
  qed
next
  assume "\<exists>e \<in> set (path_steps path). fst e \<in> S \<and> snd e \<in> S"
  then show "\<exists>pe \<in> path_edges path. fst pe \<in> S \<and> snd pe \<in> S"
    unfolding path_edges_steps by blast
qed

lemma is_chording_path_es_iff:
  "is_chording_path_es c path (set path) (path_edges path)
   \<longleftrightarrow> shared_vertices c path = 2 \<and> chording_path c path"
  unfolding is_chording_path_es_def Let_def shared_vertices_def chording_path_def
    along_cycle_pes joins_pes
  by auto

text \<open>
  C6.  What \<open>any_chording_paths\<close> computes: it returns true if and only if there are
  a pair in \<open>pairs\<close>, a path that igraph returns for it and that walks no edge of
  \<open>ignore_edges\<close>, and a cycle of \<open>bgc.cycles\<close> with no edge of \<open>ignore_edges\<close> along it,
  such that no edge of the path lies along the cycle, at least one edge of the path
  joins two vertices of the cycle, and exactly two places of the cycle hold a vertex of
  the path.  The last condition is the test \<open>ncv != 2\<close> of \<open>is_chording_path_es\<close>; the
  definition of a chording path, as the docstring of \<open>is_chording_path\<close> gives it, has
  no such condition, and the comment on the test reads it as a lower bound.
\<close>

theorem any_chording_paths_iff:
  "any_chording_paths bgc g pairs ignore_edges \<longleftrightarrow>
     (\<exists>vp \<in> set pairs. \<exists>path \<in> set (g (fst vp) (snd vp)).
        (\<forall>e \<in> set ignore_edges. \<not> edge_lies_along_path path e)
        \<and> (\<exists>cycle \<in> set (cycles bgc).
              (\<forall>e \<in> set ignore_edges. \<not> edge_lies_along_cycle cycle e)
              \<and> shared_vertices cycle path = 2
              \<and> chording_path cycle path))"
  unfolding any_chording_paths_def Let_def list_ex_iff is_chording_path_es_iff
  by (simp add: case_prod_beta)

theorem any_chording_paths_iff_witness:
  "any_chording_paths square square_paths [(0, 2)] []
   \<and> shared_vertices (Cyc [0, 1, 2, 3]) [0, 2] = 2 \<and> chording_path (Cyc [0, 1, 2, 3]) [0, 2]
   \<and> \<not> any_chording_paths square square_paths [(0, 2)] [(0, 2)]"
proof -
  have a: "shared_vertices (Cyc [0, 1, 2, 3]) [0, 2] = 2" "chording_path (Cyc [0, 1, 2, 3]) [0, 2]"
    by code_simp+
  have "\<exists>vp \<in> set [(0, 2)]. \<exists>path \<in> set (square_paths (fst vp) (snd vp)).
        (\<forall>e \<in> set []. \<not> edge_lies_along_path path e)
        \<and> (\<exists>cycle \<in> set (cycles square).
              (\<forall>e \<in> set []. \<not> edge_lies_along_cycle cycle e)
              \<and> shared_vertices cycle path = 2
              \<and> chording_path cycle path)"
    by code_simp
  then have b: "any_chording_paths square square_paths [(0, 2)] []"
    by (rule iffD2[OF any_chording_paths_iff])
  have n: "\<not> (\<exists>vp \<in> set [(0, 2)]. \<exists>path \<in> set (square_paths (fst vp) (snd vp)).
        (\<forall>e \<in> set [(0, 2)]. \<not> edge_lies_along_path path e)
        \<and> (\<exists>cycle \<in> set (cycles square).
              (\<forall>e \<in> set [(0, 2)]. \<not> edge_lies_along_cycle cycle e)
              \<and> shared_vertices cycle path = 2
              \<and> chording_path cycle path))"
    by code_simp
  have c: "\<not> any_chording_paths square square_paths [(0, 2)] [(0, 2)]"
  proof
    assume "any_chording_paths square square_paths [(0, 2)] [(0, 2)]"
    then show False
      using n by (simp only: any_chording_paths_iff)
  qed
  from a b c show ?thesis by simp
qed

text \<open>
  The test rejects a chording path that meets the cycle in more than two vertices.  In
  the hexagon with the chords \<open>(0, 2)\<close> and \<open>(2, 4)\<close> the path \<open>0, 2, 4\<close> has no edge
  along the hexagon and both its edges join vertices of it, so it is a chording path
  of the hexagon; three of its vertices are on that cycle, no other path and cycle
  qualify, and \<open>any_chording_paths\<close> returns false.
\<close>

theorem any_chording_paths_three_shared_counterexample:
  "\<not> any_chording_paths hexagon hexagon_paths [(0, 4)] []
   \<and> (0 :: int, 4 :: int) \<in> set [(0, 4)] \<and> [0, 2, 4] \<in> set (hexagon_paths 0 4)
   \<and> Cyc [0, 1, 2, 3, 4, 5] \<in> set (cycles hexagon)
   \<and> chording_path (Cyc [0, 1, 2, 3, 4, 5]) [0, 2, 4]
   \<and> shared_vertices (Cyc [0, 1, 2, 3, 4, 5]) [0, 2, 4] = 3"
  by code_simp

section \<open>Properties: the preconditions of the rules\<close>

lemma py_index_last: "xs \<noteq> [] \<Longrightarrow> py_index xs (- 1) = Inr (last xs)"
  by (cases xs rule: rev_cases) (simp_all add: py_index_def Let_def)

lemma py_index_last_Nil: "py_index [] (- 1) = Inl IndexError"
  by (simp add: py_index_def)

lemma py_index_before_last:
  "2 \<le> length xs \<Longrightarrow> py_index xs (- 2) = Inr (xs ! (length xs - 2))"
proof -
  assume a: "2 \<le> length xs"
  then have "nat (- 2 + int (length xs)) = length xs - 2" by simp
  with a show ?thesis by (simp add: py_index_def Let_def)
qed

lemma py_index_before_last_short: "length xs < 2 \<Longrightarrow> py_index xs (- 2) = Inl IndexError"
  by (simp add: py_index_def Let_def)

lemma py_index_0: "py_index (x # r) 0 = Inr x"
  by (simp add: py_index_def)

lemma obind_returned_Inl [simp]: "obind (returned (Inl e)) f = Some (Inl e)"
  by (simp add: obind_def returned_def)

lemma obind_returned_Inr [simp]: "obind (returned (Inr x)) f = f x"
  by (simp add: obind_def returned_def)

text \<open>
  C7, amended.  On a parent whose last transformation is not an e-rule, \<open>e2\<close> and \<open>c1\<close>
  stop with an exception before any child: \<open>ValueError\<close>, and for \<open>e2\<close> on an empty
  history \<open>IndexError\<close>.  The rules \<open>c2\<close> and \<open>c3\<close> do not: on a history they can
  inspect (one transformation for \<open>c2\<close>, two for \<open>c3\<close>) they return the empty sequence
  of children when the last transformation is not \<open>c1\<close>, respectively when the last two
  are not both e-rules or are e-rules whose edges share no vertex; on a shorter history
  they stop with \<open>IndexError\<close>.
\<close>

theorem rule_precondition_outcomes:
  fixes bgc :: BXGraphCyc
  shows "(elements (history bgc) = [] \<longrightarrow>
            e2 bgc = Inl IndexError \<and> c1 ig bgc = Some (Inl ValueError)
            \<and> c2 ig bgc = Some (Inl IndexError) \<and> c3 ig bgc = Some (Inl IndexError))
       \<and> (elements (history bgc) \<noteq> []
            \<and> \<not> startswith (alg (last (elements (history bgc)))) (py_str ''e'') \<longrightarrow>
            e2 bgc = Inl ValueError \<and> c1 ig bgc = Some (Inl ValueError))
       \<and> (elements (history bgc) \<noteq> []
            \<and> alg (last (elements (history bgc))) \<noteq> py_str ''c1'' \<longrightarrow>
            c2 ig bgc = Some (Inr []))
       \<and> (length (elements (history bgc)) = 1 \<longrightarrow> c3 ig bgc = Some (Inl IndexError))
       \<and> (2 \<le> length (elements (history bgc))
            \<and> \<not> (startswith (alg (last (elements (history bgc)))) (py_str ''e'')
                 \<and> startswith (alg (elements (history bgc)
                                      ! (length (elements (history bgc)) - 2))) (py_str ''e''))
            \<longrightarrow> c3 ig bgc = Some (Inr []))
       \<and> (2 \<le> length (elements (history bgc))
            \<and> startswith (alg (last (elements (history bgc)))) (py_str ''e'')
            \<and> startswith (alg (elements (history bgc)
                                 ! (length (elements (history bgc)) - 2))) (py_str ''e'')
            \<and> ops (last (elements (history bgc))) = AddEdge v1 v2 # r1
            \<and> ops (elements (history bgc) ! (length (elements (history bgc)) - 2))
                = AddEdge v3 v4 # r2
            \<and> v1 \<noteq> v4 \<and> v1 \<noteq> v3 \<and> v2 \<noteq> v3 \<and> v2 \<noteq> v4
            \<longrightarrow> c3 ig bgc = Some (Inr []))"
proof -
  let ?els = "elements (history bgc)"
  have 1: "e2 bgc = Inl IndexError \<and> c1 ig bgc = Some (Inl ValueError)
            \<and> c2 ig bgc = Some (Inl IndexError) \<and> c3 ig bgc = Some (Inl IndexError)"
    if "?els = []"
    using that
    by (simp add: e2_def prev_e_def c1_def get_typeb_edge_def c2_def find_c1_vertices_def
        c3_def find_c3_vertices_def py_index_last_Nil)
  have 2: "e2 bgc = Inl ValueError \<and> c1 ig bgc = Some (Inl ValueError)"
    if "?els \<noteq> []" "\<not> startswith (alg (last ?els)) (py_str ''e'')"
    using that
    by (simp add: e2_def prev_e_def c1_def get_typeb_edge_def py_index_last)
  have 3: "c2 ig bgc = Some (Inr [])"
    if "?els \<noteq> []" "alg (last ?els) \<noteq> py_str ''c1''"
    using that
    by (simp add: c2_def find_c1_vertices_def py_index_last)
  have 4: "c3 ig bgc = Some (Inl IndexError)" if "length ?els = 1"
  proof -
    from that have "?els \<noteq> []" "length ?els < 2" by auto
    then show ?thesis
    by (simp add: c3_def find_c3_vertices_def py_index_last py_index_before_last_short)
  qed
  have 5: "c3 ig bgc = Some (Inr [])"
    if "2 \<le> length ?els"
      "\<not> (startswith (alg (last ?els)) (py_str ''e'')
          \<and> startswith (alg (?els ! (length ?els - 2))) (py_str ''e''))"
  proof -
    from that(1) have "?els \<noteq> []" by auto
    with that show ?thesis
      by (auto simp add: c3_def find_c3_vertices_def py_index_last py_index_before_last)
  qed
  have 6: "c3 ig bgc = Some (Inr [])"
    if "2 \<le> length ?els"
      "startswith (alg (last ?els)) (py_str ''e'')"
      "startswith (alg (?els ! (length ?els - 2))) (py_str ''e'')"
      "ops (last ?els) = AddEdge v1 v2 # r1"
      "ops (?els ! (length ?els - 2)) = AddEdge v3 v4 # r2"
      "v1 \<noteq> v4" "v1 \<noteq> v3" "v2 \<noteq> v3" "v2 \<noteq> v4"
  proof -
    from that(1) have "?els \<noteq> []" by auto
    with that have "find_c3_vertices bgc = Inr None"
      by (simp add: find_c3_vertices_def py_index_last py_index_before_last py_index_0)
    then show ?thesis
      by (simp add: c3_def)
  qed
  from 1 2 3 4 5 6 show ?thesis by blast
qed

text \<open>
  The graphs of the examples are children of the square: \<open>square\<close> is the first child
  of the root by \<open>e1\<close>, \<open>square_k4\<close> the child of \<open>square\<close> by \<open>e1\<close>, and \<open>square_c1\<close>
  the first child of \<open>square\<close> by \<open>c1\<close> when no path is found.
\<close>

lemma square_children:
  "map_sum id hd (e1 square_root) = Inr square"
  "e1 square = Inr [square_k4]"
  "map_option (map_sum id hd) (c1 no_paths square) = Some (Inr square_c1)"
  by code_simp+

theorem rule_precondition_outcomes_witness:
  "e2 square_root = Inl IndexError \<and> c1 no_paths square_root = Some (Inl ValueError)
   \<and> c2 no_paths square_root = Some (Inl IndexError)
   \<and> c3 no_paths square_root = Some (Inl IndexError)
   \<and> e2 square_c1 = Inl ValueError \<and> c1 no_paths square_c1 = Some (Inl ValueError)
   \<and> c2 no_paths square = Some (Inr [])
   \<and> c3 no_paths square = Some (Inl IndexError)
   \<and> c3 no_paths square_c1 = Some (Inr [])
   \<and> c3 no_paths square_k4 = Some (Inr [])"
proof -
  note t = rule_precondition_outcomes
  have a: "elements (history square_root) = []"
    by (simp add: square_root_def)
  have b: "elements (history square_c1) \<noteq> []
      \<and> \<not> startswith (alg (last (elements (history square_c1)))) (py_str ''e'')"
    by (simp add: square_c1_def startswith_def py_str_def)
  have c: "elements (history square) \<noteq> []
      \<and> alg (last (elements (history square))) \<noteq> py_str ''c1''"
    by (simp add: square_def py_str_def)
  have d: "length (elements (history square)) = 1"
    by (simp add: square_def)
  have e: "2 \<le> length (elements (history square_c1))
      \<and> \<not> (startswith (alg (last (elements (history square_c1)))) (py_str ''e'')
           \<and> startswith (alg (elements (history square_c1)
                                ! (length (elements (history square_c1)) - 2))) (py_str ''e''))"
    by (simp add: square_c1_def startswith_def py_str_def)
  have f: "2 \<le> length (elements (history square_k4))
            \<and> startswith (alg (last (elements (history square_k4)))) (py_str ''e'')
            \<and> startswith (alg (elements (history square_k4)
                                 ! (length (elements (history square_k4)) - 2))) (py_str ''e'')
            \<and> ops (last (elements (history square_k4))) = AddEdge 3 1 # []
            \<and> ops (elements (history square_k4) ! (length (elements (history square_k4)) - 2))
                = AddEdge 2 0 # []
            \<and> (3 :: int) \<noteq> 0 \<and> (3 :: int) \<noteq> 2 \<and> (1 :: int) \<noteq> 2 \<and> (1 :: int) \<noteq> 0"
    by (simp add: square_k4_def startswith_def py_str_def)
  from t[of square_root no_paths 0 0 "[]" 0 0 "[]"] a
  have 1: "e2 square_root = Inl IndexError \<and> c1 no_paths square_root = Some (Inl ValueError)
     \<and> c2 no_paths square_root = Some (Inl IndexError)
     \<and> c3 no_paths square_root = Some (Inl IndexError)"
    by blast
  from t[of square_c1 no_paths 0 0 "[]" 0 0 "[]"] b
  have 2: "e2 square_c1 = Inl ValueError \<and> c1 no_paths square_c1 = Some (Inl ValueError)"
    by blast
  from t[of square no_paths 0 0 "[]" 0 0 "[]"] c have 3: "c2 no_paths square = Some (Inr [])"
    by blast
  from t[of square no_paths 0 0 "[]" 0 0 "[]"] d have 4: "c3 no_paths square = Some (Inl IndexError)"
    by blast
  from t[of square_c1 no_paths 0 0 "[]" 0 0 "[]"] e have 5: "c3 no_paths square_c1 = Some (Inr [])"
    by blast
  from t[of square_k4 no_paths 3 1 "[]" 2 0 "[]"] f have 6: "c3 no_paths square_k4 = Some (Inr [])"
    by blast
  from 1 2 3 4 5 6 show ?thesis by simp
qed

text \<open>
  The claim as stated fails: on \<open>square\<close>, whose last transformation is \<open>e1\<close>, the rule
  \<open>c2\<close> returns the empty sequence, and so does \<open>c3\<close> on \<open>square_c1\<close>, whose last
  transformation is \<open>c1\<close>.
\<close>

theorem rule_silent_return_counterexample:
  "alg (last (elements (history square))) = py_str ''e1''
   \<and> c2 no_paths square = Some (Inr [])
   \<and> alg (last (elements (history square_c1))) = py_str ''c1''
   \<and> c3 no_paths square_c1 = Some (Inr [])"
  by code_simp

section \<open>Properties: moving an edge\<close>

subsection \<open>Outcomes\<close>

lemma obind_Some_Inr [simp]: "obind (Some (Inr x)) f = f x"
  by (simp add: obind_def)

lemma obind_Some_Inl [simp]: "obind (Some (Inl e)) f = Some (Inl e)"
  by (simp add: obind_def)

lemma obind_None [simp]: "obind None f = None"
  by (simp add: obind_def)

lemma settled_obind:
  assumes "settled m" and "\<And>x. settled (f x)"
  shows "settled (obind m f)"
proof (cases "m = Some (Inl ValueError)")
  case True
  then show ?thesis by (simp add: settled_def)
next
  case False
  with assms(1) obtain x where "m = Some (Inr x)" by (auto simp: settled_def)
  with assms(2)[of x] show ?thesis by simp
qed

lemma settled_ofold:
  assumes "\<And>x s. x \<in> set xs \<Longrightarrow> settled (f x s)"
  shows "settled (ofold f xs s)"
  using assms
proof (induction xs arbitrary: s)
  case Nil
  then show ?case by (simp add: settled_def)
next
  case (Cons x xs)
  show ?case
    unfolding ofold.simps
    by (rule settled_obind) (use Cons in auto)
qed

lemma ofold_raises:
  assumes "\<And>x s. x \<in> set xs \<Longrightarrow> settled (f x s)"
    and "y \<in> set xs" and "\<And>s. f y s = Some (Inl ValueError)"
  shows "ofold f xs s = Some (Inl ValueError)"
  using assms(1,2)
proof (induction xs arbitrary: s)
  case Nil
  then show ?case by simp
next
  case (Cons x xs)
  from Cons.prems(1)[of x s] have sx: "settled (f x s)" by simp
  show ?case
  proof (cases "f x s = Some (Inl ValueError)")
    case True
    then show ?thesis by simp
  next
    case False
    with sx obtain s1 where s1: "f x s = Some (Inr s1)" by (auto simp: settled_def)
    with assms(3) have "y \<noteq> x" by auto
    with Cons.prems(2) have "y \<in> set xs" by simp
    with Cons.IH[of s1] Cons.prems(1) s1 show ?thesis by simp
  qed
qed

subsection \<open>The while loop\<close>

lemma walk_terminates:
  assumes "inc = 1 \<or> inc = - 1" and "0 \<le> target" and "target < int (length vl)"
  shows "0 \<le> j \<Longrightarrow> j < int (length vl) \<Longrightarrow> d = nat (((target - j) * inc) mod int (length vl))
      \<Longrightarrow> \<exists>l. walk vl j inc target acc = Some (Inr l)"
proof (induction d arbitrary: j acc)
  case 0
  let ?n = "int (length vl)"
  have npos: "0 < ?n" using 0 by linarith
  from 0 pos_mod_sign[OF npos, of "(target - j) * inc"]
  have "((target - j) * inc) mod ?n = 0"
    by linarith
  then have "?n dvd (target - j) * inc" by (simp add: dvd_eq_mod_eq_0)
  with assms(1) have "?n dvd target - j"
    using dvd_minus_iff[of ?n "target - j"] by auto
  moreover from 0 assms have "\<bar>target - j\<bar> < ?n" by linarith
  ultimately have "target - j = 0"
    using zdvd_not_zless[of "\<bar>target - j\<bar>" ?n] by (cases "target - j = 0") auto
  then show ?case
    by (subst walk.simps) simp
next
  case (Suc d)
  let ?n = "int (length vl)"
  have npos: "0 < ?n" using Suc.prems by linarith
  from Suc.prems(3) have m: "((target - j) * inc) mod ?n = int d + 1"
    by linarith
  then have ne: "j \<noteq> target" by auto
  obtain x where x: "py_index vl j = Inr x"
    using Suc.prems by (simp add: py_index_def Let_def)
  let ?j = "(j + inc) mod ?n"
  have j': "0 \<le> ?j" "?j < ?n" using npos by simp_all
  have ii: "inc * inc = 1" using assms(1) by auto
  have "((target - ?j) * inc) mod ?n = ((target - (j + inc)) * inc) mod ?n"
    by (metis mod_diff_right_eq mod_mult_left_eq)
  also have "(target - (j + inc)) * inc = (target - j) * inc - 1"
    using ii by (simp add: algebra_simps)
  also have "((target - j) * inc - 1) mod ?n = (((target - j) * inc) mod ?n - 1) mod ?n"
    by (simp add: mod_diff_left_eq)
  also have "\<dots> = int d mod ?n" using m by simp
  also have "\<dots> = int d"
  proof -
    have "int d + 1 < ?n" using m npos by (metis pos_mod_bound)
    then show ?thesis by simp
  qed
  finally have "d = nat (((target - ?j) * inc) mod ?n)" by simp
  from Suc.IH[OF j' this, of "acc @ [x]"] obtain l
    where "walk vl ?j inc target (acc @ [x]) = Some (Inr l)" by blast
  then show ?case
    using ne x by (subst walk.simps) simp
qed


subsection \<open>Indices and patterns\<close>

lemma get_index_loop_Cons:
  "get_index_loop (v # vs) i a b c (ai, bi, ci) =
     (if v = a then (if bi \<ge> 0 \<and> ci \<ge> 0 \<and> i \<ge> 0 then (i, bi, ci)
                    else get_index_loop vs (i + 1) a b c (i, bi, ci))
      else if v = b then (if ai \<ge> 0 \<and> ci \<ge> 0 \<and> i \<ge> 0 then (ai, i, ci)
                    else get_index_loop vs (i + 1) a b c (ai, i, ci))
      else if v = c then (if ai \<ge> 0 \<and> bi \<ge> 0 \<and> i \<ge> 0 then (ai, bi, i)
                    else get_index_loop vs (i + 1) a b c (ai, bi, i))
      else (if ai \<ge> 0 \<and> bi \<ge> 0 \<and> ci \<ge> 0 then (ai, bi, ci)
                    else get_index_loop vs (i + 1) a b c (ai, bi, ci)))"
  by (simp add: Let_def conj_commute conj_left_commute)

declare get_index_loop.simps(2) [simp del]

lemma get_index_loop_upper:
  "get_index_loop vs i a b c (ai0, bi0, ci0) = (ai, bi, ci) \<Longrightarrow>
   ai0 < i \<Longrightarrow> bi0 < i \<Longrightarrow> ci0 < i \<Longrightarrow>
   ai < i + int (length vs) \<and> bi < i + int (length vs) \<and> ci < i + int (length vs)"
proof (induction vs arbitrary: i ai0 bi0 ci0)
  case Nil
  then show ?case by simp
next
  case (Cons v vs)
  have step: "ai < (i + 1) + int (length vs) \<and> bi < (i + 1) + int (length vs)
      \<and> ci < (i + 1) + int (length vs)"
    if "get_index_loop vs (i + 1) a b c (x, y, z) = (ai, bi, ci)" "x \<le> i" "y \<le> i" "z \<le> i"
    for x y z
    using Cons.IH[OF that(1)] that(2-4) by simp
  from Cons.prems(2-4) have le: "ai0 \<le> i" "bi0 \<le> i" "ci0 \<le> i" by simp_all
  consider (a) "v = a" | (b) "v \<noteq> a" "v = b" | (c) "v \<noteq> a" "v \<noteq> b" "v = c"
    | (n) "v \<noteq> a" "v \<noteq> b" "v \<noteq> c" by blast
  then show ?case
  proof cases
    case a
    show ?thesis
    proof (cases "bi0 \<ge> 0 \<and> ci0 \<ge> 0 \<and> i \<ge> 0")
      case True
      with Cons.prems(1) a have "ai = i" "bi = bi0" "ci = ci0"
        by (simp_all add: get_index_loop_Cons)
      with le show ?thesis by simp
    next
      case False
      with Cons.prems(1) a have "get_index_loop vs (i + 1) a b c (i, bi0, ci0) = (ai, bi, ci)"
        by (simp add: get_index_loop_Cons)
      from step[OF this] le show ?thesis by simp
    qed
  next
    case b
    show ?thesis
    proof (cases "ai0 \<ge> 0 \<and> ci0 \<ge> 0 \<and> i \<ge> 0")
      case True
      with Cons.prems(1) b have "ai = ai0" "bi = i" "ci = ci0"
        by (simp_all add: get_index_loop_Cons)
      with le show ?thesis by simp
    next
      case False
      with Cons.prems(1) b have "get_index_loop vs (i + 1) a b c (ai0, i, ci0) = (ai, bi, ci)"
        by (simp add: get_index_loop_Cons)
      from step[OF this] le show ?thesis by simp
    qed
  next
    case c
    show ?thesis
    proof (cases "ai0 \<ge> 0 \<and> bi0 \<ge> 0 \<and> i \<ge> 0")
      case True
      with Cons.prems(1) c have "ai = ai0" "bi = bi0" "ci = i"
        by (simp_all add: get_index_loop_Cons)
      with le show ?thesis by simp
    next
      case False
      with Cons.prems(1) c have "get_index_loop vs (i + 1) a b c (ai0, bi0, i) = (ai, bi, ci)"
        by (simp add: get_index_loop_Cons)
      from step[OF this] le show ?thesis by simp
    qed
  next
    case n
    show ?thesis
    proof (cases "ai0 \<ge> 0 \<and> bi0 \<ge> 0 \<and> ci0 \<ge> 0")
      case True
      with Cons.prems(1) n have "ai = ai0" "bi = bi0" "ci = ci0"
        by (simp_all add: get_index_loop_Cons)
      with le show ?thesis by simp
    next
      case False
      with Cons.prems(1) n have "get_index_loop vs (i + 1) a b c (ai0, bi0, ci0) = (ai, bi, ci)"
        by (simp add: get_index_loop_Cons)
      from step[OF this] le show ?thesis by simp
    qed
  qed
qed

lemma get_index_loop_found:
  "get_index_loop vs i a b c (ai0, bi0, ci0) = (ai, bi, ci) \<Longrightarrow> 0 \<le> i \<Longrightarrow>
   (0 \<le> ai0 \<or> a \<in> set vs \<longrightarrow> 0 \<le> ai)
   \<and> (0 \<le> bi0 \<or> (b \<in> set vs \<and> b \<noteq> a) \<longrightarrow> 0 \<le> bi)
   \<and> (0 \<le> ci0 \<or> (c \<in> set vs \<and> c \<noteq> a \<and> c \<noteq> b) \<longrightarrow> 0 \<le> ci)"
proof (induction vs arbitrary: i ai0 bi0 ci0)
  case Nil
  then show ?case by simp
next
  case (Cons v vs)
  have i1: "0 \<le> i + 1" using Cons.prems(2) by simp
  consider (a) "v = a" | (b) "v \<noteq> a" "v = b" | (c) "v \<noteq> a" "v \<noteq> b" "v = c"
    | (n) "v \<noteq> a" "v \<noteq> b" "v \<noteq> c" by blast
  then show ?case
  proof cases
    case a
    show ?thesis
    proof (cases "bi0 \<ge> 0 \<and> ci0 \<ge> 0 \<and> i \<ge> 0")
      case True
      with Cons.prems(1) a have "ai = i" "bi = bi0" "ci = ci0"
        by (simp_all add: get_index_loop_Cons)
      with True show ?thesis by simp
    next
      case False
      with Cons.prems(1) a have "get_index_loop vs (i + 1) a b c (i, bi0, ci0) = (ai, bi, ci)"
        by (simp add: get_index_loop_Cons)
      from Cons.IH[OF this i1] Cons.prems(2) a show ?thesis by auto
    qed
  next
    case b
    show ?thesis
    proof (cases "ai0 \<ge> 0 \<and> ci0 \<ge> 0 \<and> i \<ge> 0")
      case True
      with Cons.prems(1) b have "ai = ai0" "bi = i" "ci = ci0"
        by (simp_all add: get_index_loop_Cons)
      with True show ?thesis by simp
    next
      case False
      with Cons.prems(1) b have "get_index_loop vs (i + 1) a b c (ai0, i, ci0) = (ai, bi, ci)"
        by (simp add: get_index_loop_Cons)
      from Cons.IH[OF this i1] Cons.prems(2) b show ?thesis by auto
    qed
  next
    case c
    show ?thesis
    proof (cases "ai0 \<ge> 0 \<and> bi0 \<ge> 0 \<and> i \<ge> 0")
      case True
      with Cons.prems(1) c have "ai = ai0" "bi = bi0" "ci = i"
        by (simp_all add: get_index_loop_Cons)
      with True show ?thesis by simp
    next
      case False
      with Cons.prems(1) c have "get_index_loop vs (i + 1) a b c (ai0, bi0, i) = (ai, bi, ci)"
        by (simp add: get_index_loop_Cons)
      from Cons.IH[OF this i1] Cons.prems(2) c show ?thesis by auto
    qed
  next
    case n
    show ?thesis
    proof (cases "ai0 \<ge> 0 \<and> bi0 \<ge> 0 \<and> ci0 \<ge> 0")
      case True
      with Cons.prems(1) n have "ai = ai0" "bi = bi0" "ci = ci0"
        by (simp_all add: get_index_loop_Cons)
      with True show ?thesis by simp
    next
      case False
      with Cons.prems(1) n have "get_index_loop vs (i + 1) a b c (ai0, bi0, ci0) = (ai, bi, ci)"
        by (simp add: get_index_loop_Cons)
      from Cons.IH[OF this i1] n show ?thesis by auto
    qed
  qed
qed

lemma get_index_bounds:
  assumes "get_index vl a b c = (ai, bi, ci)"
  shows "(a \<in> set vl \<longrightarrow> 0 \<le> ai \<and> ai < int (length vl))
       \<and> (b \<in> set vl \<and> b \<noteq> a \<longrightarrow> 0 \<le> bi \<and> bi < int (length vl))
       \<and> (c \<in> set vl \<and> c \<noteq> a \<and> c \<noteq> b \<longrightarrow> 0 \<le> ci \<and> ci < int (length vl))"
proof -
  note g = assms[unfolded get_index_def]
  from get_index_loop_upper[OF g] have "ai < int (length vl) \<and> bi < int (length vl)
      \<and> ci < int (length vl)" by simp
  moreover from get_index_loop_found[OF g] have "(a \<in> set vl \<longrightarrow> 0 \<le> ai)
   \<and> (b \<in> set vl \<and> b \<noteq> a \<longrightarrow> 0 \<le> bi)
   \<and> (c \<in> set vl \<and> c \<noteq> a \<and> c \<noteq> b \<longrightarrow> 0 \<le> ci)" by simp
  ultimately show ?thesis by blast
qed

text \<open>A letter of the pattern stands for a vertex of the cycle.\<close>

lemma pattern_step_letters:
  assumes "pattern_step a b c v st = st'"
  shows "(CHR ''a'' \<in> set (fst st') \<longrightarrow> CHR ''a'' \<in> set (fst st) \<or> v = a)
       \<and> (CHR ''b'' \<in> set (fst st') \<longrightarrow> CHR ''b'' \<in> set (fst st) \<or> (v = b \<and> b \<noteq> a))
       \<and> (CHR ''c'' \<in> set (fst st') \<longrightarrow> CHR ''c'' \<in> set (fst st) \<or> (v = c \<and> c \<noteq> a \<and> c \<noteq> b))"
  using assms by (cases st) (auto simp: pattern_step_def split: if_splits)

lemma pattern_fold_letters:
  "(CHR ''a'' \<in> set (fst (fold (pattern_step a b c) vs st)) \<longrightarrow> CHR ''a'' \<in> set (fst st) \<or> a \<in> set vs)
   \<and> (CHR ''b'' \<in> set (fst (fold (pattern_step a b c) vs st))
        \<longrightarrow> CHR ''b'' \<in> set (fst st) \<or> (b \<in> set vs \<and> b \<noteq> a))
   \<and> (CHR ''c'' \<in> set (fst (fold (pattern_step a b c) vs st))
        \<longrightarrow> CHR ''c'' \<in> set (fst st) \<or> (c \<in> set vs \<and> c \<noteq> a \<and> c \<noteq> b))"
proof (induction vs arbitrary: st)
  case Nil
  then show ?case by simp
next
  case (Cons v vs)
  from Cons.IH[of "pattern_step a b c v st"] pattern_step_letters[OF refl, of a b c v st]
  show ?case by auto
qed

lemma replace_stars_subset: "set (replace_stars r) \<subseteq> set r"
  by (induction r rule: replace_stars.induct) auto

lemma drop_take_set: "set (py_drop s k @ py_take s k) = set s"
proof -
  have "set (drop n s @ take n s) = set s" for n
    using set_append[of "take n s" "drop n s"] by (simp add: Un_commute)
  then show ?thesis
    unfolding py_drop_def py_take_def by blast
qed

lemma rotated_pattern_subset: "set (replace_stars (py_drop s k @ py_take s k)) \<subseteq> set s"
  using replace_stars_subset[of "py_drop s k @ py_take s k"] drop_take_set[of s k] by simp

lemma get_pattern_letters:
  "(CHR ''a'' \<in> set (get_pattern vl a b c) \<longrightarrow> a \<in> set vl)
   \<and> (CHR ''b'' \<in> set (get_pattern vl a b c) \<longrightarrow> b \<in> set vl \<and> b \<noteq> a)
   \<and> (CHR ''c'' \<in> set (get_pattern vl a b c) \<longrightarrow> c \<in> set vl \<and> c \<noteq> a \<and> c \<noteq> b)"
proof -
  obtain s lk pa pb pc
    where f: "fold (pattern_step a b c) vl ([], True, - 1, - 1, - 1) = (s, lk, pa, pb, pc)"
    by (cases "fold (pattern_step a b c) vl ([], True, - 1, - 1, - 1)" rule: prod_cases5) auto
  have "set (get_pattern vl a b c) \<subseteq> set s"
    using rotated_pattern_subset[of s pa] rotated_pattern_subset[of s pb]
      rotated_pattern_subset[of s pc] replace_stars_subset[of s]
    by (simp add: get_pattern_def f)
  moreover from pattern_fold_letters[of a b c vl "([], True, - 1, - 1, - 1)"] f
  have "(CHR ''a'' \<in> set s \<longrightarrow> a \<in> set vl)
     \<and> (CHR ''b'' \<in> set s \<longrightarrow> b \<in> set vl \<and> b \<noteq> a)
     \<and> (CHR ''c'' \<in> set s \<longrightarrow> c \<in> set vl \<and> c \<noteq> a \<and> c \<noteq> b)"
    by simp
  ultimately show ?thesis by blast
qed

lemma split_step_fst:
  "fst (split_step vl start c i (l1, l2, fl))
     = (if fl then l1 else l1 @ [vl ! nat ((i + start) mod int (length vl))])"
  by (simp add: split_step_def Let_def)

lemma split_step_snd:
  "fst (snd (split_step vl start c i (l1, l2, fl)))
     = (if fl \<or> vl ! nat ((i + start) mod int (length vl)) = c
        then l2 @ [vl ! nat ((i + start) mod int (length vl))] else l2)"
  by (simp add: split_step_def Let_def)

lemma split_fold_fst_keep:
  "l1 \<noteq> [] \<Longrightarrow> fst (fold (split_step vl start c) ys (l1, l2, fl)) \<noteq> []"
proof (induction ys arbitrary: l1 l2 fl)
  case Nil
  then show ?case by simp
next
  case (Cons y ys)
  obtain a' b' fl' where s: "split_step vl start c y (l1, l2, fl) = (a', b', fl')"
    by (cases "split_step vl start c y (l1, l2, fl)") auto
  from split_step_fst[of vl start c y l1 l2 fl] s Cons.prems have "a' \<noteq> []"
    by (auto split: if_splits)
  from Cons.IH[OF this] s show ?case by simp
qed

lemma split_fold_snd_keep:
  "l2 \<noteq> [] \<Longrightarrow> fst (snd (fold (split_step vl start c) ys (l1, l2, fl))) \<noteq> []"
proof (induction ys arbitrary: l1 l2 fl)
  case Nil
  then show ?case by simp
next
  case (Cons y ys)
  obtain a' b' fl' where s: "split_step vl start c y (l1, l2, fl) = (a', b', fl')"
    by (cases "split_step vl start c y (l1, l2, fl)") auto
  from split_step_snd[of vl start c y l1 l2 fl] s Cons.prems have "b' \<noteq> []"
    by (auto split: if_splits)
  from Cons.IH[OF this] s show ?case by simp
qed

lemma split_fold_snd_hit:
  "\<exists>i \<in> set ys. vl ! nat ((i + start) mod int (length vl)) = c \<Longrightarrow>
   fst (snd (fold (split_step vl start c) ys (l1, l2, fl))) \<noteq> []"
proof (induction ys arbitrary: l1 l2 fl)
  case Nil
  then show ?case by simp
next
  case (Cons y ys)
  obtain a' b' fl' where s: "split_step vl start c y (l1, l2, fl) = (a', b', fl')"
    by (cases "split_step vl start c y (l1, l2, fl)") auto
  show ?case
  proof (cases "vl ! nat ((y + start) mod int (length vl)) = c")
    case True
    with split_step_snd[of vl start c y l1 l2 fl] s have "b' \<noteq> []" by simp
    from split_fold_snd_keep[OF this] s show ?thesis by simp
  next
    case False
    with Cons.prems have "\<exists>i \<in> set ys. vl ! nat ((i + start) mod int (length vl)) = c" by simp
    from Cons.IH[OF this] s show ?thesis by simp
  qed
qed

lemma split_at_c_nonempty:
  assumes "c \<in> set vl"
  shows "fst (split_at_c vl start c) \<noteq> [] \<and> snd (split_at_c vl start c) \<noteq> []"
proof -
  let ?n = "int (length vl)"
  from assms have npos: "0 < ?n" by (cases vl) auto
  then have "0 \<le> ?n - 1" by simp
  then have "[0..?n - 1] = 0 # [0 + 1..?n - 1]" by (rule upto_rec1)
  then have xr: "py_range 0 ?n = 0 # [0 + 1..?n - 1]" by (simp only: py_range_def)
  obtain a' b' fl' where s: "split_step vl start c 0 ([], [], False) = (a', b', fl')"
    by (cases "split_step vl start c 0 ([], [], False)") auto
  from split_step_fst[of vl start c 0 "[]" "[]" False] s have "a' \<noteq> []" by simp
  from split_fold_fst_keep[OF this, of vl start c "[0 + 1..?n - 1]" b' fl'] s
  have 1: "fst (fold (split_step vl start c) (py_range 0 ?n) ([], [], False)) \<noteq> []"
    unfolding xr by simp
  from assms obtain k where k: "k < length vl" "vl ! k = c" by (auto simp: in_set_conv_nth)
  define i where "i = (int k - start) mod ?n"
  have "0 \<le> i" "i < ?n" using npos by (simp_all add: i_def)
  then have mem: "i \<in> set (py_range 0 ?n)" by (simp add: py_range_def)
  have "(i + start) mod ?n = int k mod ?n"
    unfolding i_def by (simp add: mod_add_left_eq)
  also have "\<dots> = int k" using k(1) by simp
  finally have "vl ! nat ((i + start) mod ?n) = c" using k(2) by simp
  with mem have "\<exists>i \<in> set (py_range 0 ?n). vl ! nat ((i + start) mod ?n) = c" by blast
  from split_fold_snd_hit[OF this, of "[]" "[]" False]
  have 2: "fst (snd (fold (split_step vl start c) (py_range 0 ?n) ([], [], False))) \<noteq> []" .
  obtain x y z where f: "fold (split_step vl start c) (py_range 0 ?n) ([], [], False) = (x, y, z)"
    by (cases "fold (split_step vl start c) (py_range 0 ?n) ([], [], False)") auto
  from 1 2 show ?thesis
    by (simp add: split_at_c_def f)
qed

lemma add_one_defined: "xs \<noteq> [] \<Longrightarrow> \<exists>r. add_one xs result = Inr r"
  using new_Cycle_total[of xs] by (auto simp: add_one_def)

lemma add_two_defined:
  "fst ls \<noteq> [] \<Longrightarrow> snd ls \<noteq> [] \<Longrightarrow> \<exists>r. add_two ls result = Inr r"
  using new_Cycle_total[of "fst ls"] new_Cycle_total[of "snd ls"]
  by (cases ls) (auto simp: add_two_def)

lemma remove_index_nonempty:
  assumes "0 \<le> bi" and "bi < int (length vl)" and "2 \<le> length vl"
  shows "py_take vl bi @ py_drop vl (bi + 1) \<noteq> []"
proof -
  have "length (py_take vl bi @ py_drop vl (bi + 1)) = length vl - 1"
    using assms by (auto simp: py_take_def py_drop_def py_clamp_def)
  with assms(3) show ?thesis by auto
qed

lemma two_vertices: "a \<in> set vl \<Longrightarrow> b \<in> set vl \<Longrightarrow> b \<noteq> a \<Longrightarrow> 2 \<le> length vl"
proof -
  assume "a \<in> set vl" "b \<in> set vl" "b \<noteq> a"
  then have "{a, b} \<subseteq> set vl" "card {a, b} = 2" by auto
  then have "2 \<le> card (set vl)"
    by (metis List.finite_set card_mono)
  then show ?thesis
    using card_length[of vl] by linarith
qed

lemma letters_of:
  "CHR ''a'' \<in> set ''a*b''" "CHR ''b'' \<in> set ''a*b''"
  "CHR ''a'' \<in> set ''ab*''" "CHR ''b'' \<in> set ''ab*''"
  "CHR ''b'' \<in> set ''b*c''" "CHR ''c'' \<in> set ''b*c''"
  "CHR ''b'' \<in> set ''bc*''" "CHR ''c'' \<in> set ''bc*''"
  "CHR ''c'' \<in> set ''a*c*''" "CHR ''c'' \<in> set ''a*c*b''" "CHR ''c'' \<in> set ''ab*c*''"
  "CHR ''a'' \<in> set ''a*cb''" "CHR ''b'' \<in> set ''a*cb''"
  "CHR ''a'' \<in> set ''abc*''" "CHR ''b'' \<in> set ''abc*''"
  by simp_all

lemma move_cycle_settled:
  "move_cycle cycle a b c result = Inl ValueError \<or> (\<exists>r. move_cycle cycle a b c result = Inr r)"
proof -
  let ?vl = "vlist cycle"
  let ?p = "get_pattern ?vl a b c"
  obtain ai bi ci where gi: "get_index ?vl a b c = (ai, bi, ci)"
    by (cases "get_index ?vl a b c") auto
  note L = get_pattern_letters[of ?vl a b c]
  note B = get_index_bounds[OF gi]
  have one: "\<exists>r. add_one (xs @ [c] @ ys) res = Inr r" for xs ys res
    by (rule add_one_defined) simp
  have two: "\<exists>r. add_two (split_at_c ?vl st c) res = Inr r" if "CHR ''c'' \<in> set ?p" for st res
  proof -
    from that L have "c \<in> set ?vl" by blast
    from split_at_c_nonempty[OF this, of st] show ?thesis
      by (intro add_two_defined) simp_all
  qed
  have rem: "\<exists>r. add_one (py_take ?vl bi @ py_drop ?vl (bi + 1)) res = Inr r"
    if "CHR ''a'' \<in> set ?p" "CHR ''b'' \<in> set ?p" for res
  proof -
    from that L have m: "a \<in> set ?vl" "b \<in> set ?vl" "b \<noteq> a" by blast+
    with B have "0 \<le> bi" "bi < int (length ?vl)" by blast+
    from remove_index_nonempty[OF this two_vertices[OF m]] show ?thesis
      by (rule add_one_defined)
  qed
  consider (p1) "?p = ''a*b''" | (p2) "?p = ''a*c*''" | (p3) "?p = ''a*c*b''"
    | (p4) "?p = ''a*cb''" | (p5) "?p = ''ab*''" | (p6) "?p = ''ab*c*''" | (p7) "?p = ''abc*''"
    | (other) "?p \<notin> rewrite_patterns"
    unfolding rewrite_patterns_def by blast
  then show ?thesis
  proof cases
    case p1
    with one[of "py_take ?vl (bi + 1)" "py_drop ?vl (bi + 1)" result] show ?thesis
      by (simp add: move_cycle_def gi Let_def)
  next
    case p2
    with two[of ai "set_add result cycle"] letters_of show ?thesis
      by (simp add: move_cycle_def gi Let_def)
  next
    case p3
    with two[of ai result] letters_of show ?thesis
      by (simp add: move_cycle_def gi Let_def)
  next
    case p4
    with rem[of result] letters_of show ?thesis
      by (simp add: move_cycle_def gi Let_def)
  next
    case p5
    with one[of "py_take ?vl (ai + 1)" "py_drop ?vl (ai + 1)" result] show ?thesis
      by (simp add: move_cycle_def gi Let_def)
  next
    case p6
    with two[of bi result] letters_of show ?thesis
      by (simp add: move_cycle_def gi Let_def)
  next
    case p7
    with rem[of result] letters_of show ?thesis
      by (simp add: move_cycle_def gi Let_def)
  next
    case other
    then have "?p \<noteq> ''a*b''" "?p \<noteq> ''a*c*''" "?p \<noteq> ''a*c*b''" "?p \<noteq> ''a*cb''"
      "?p \<noteq> ''ab*''" "?p \<noteq> ''ab*c*''" "?p \<noteq> ''abc*''"
      unfolding rewrite_patterns_def by blast+
    then show ?thesis
      by (simp add: move_cycle_def gi Let_def)
  qed
qed

lemma move_cycle_raises:
  assumes "get_pattern (vlist cycle) a b c \<notin> rewrite_patterns \<union> passthrough_patterns"
  shows "move_cycle cycle a b c result = Inl ValueError"
proof -
  let ?p = "get_pattern (vlist cycle) a b c"
  from assms have "?p \<noteq> ''a*b''" "?p \<noteq> ''a*c*''" "?p \<noteq> ''a*c*b''" "?p \<noteq> ''a*cb''"
      "?p \<noteq> ''ab*''" "?p \<noteq> ''ab*c*''" "?p \<noteq> ''abc*''" "?p \<notin> passthrough_patterns"
    unfolding rewrite_patterns_def by blast+
  then show ?thesis
    by (cases "get_index (vlist cycle) a b c") (simp add: move_cycle_def Let_def)
qed

lemma returned_Inr [simp]: "returned (Inr x) = Some (Inr x)"
  by (simp add: returned_def)

lemma returned_Inl [simp]: "returned (Inl e) = Some (Inl e)"
  by (simp add: returned_def)

lemma py_index_in_range:
  "0 \<le> k \<Longrightarrow> k < int (length xs) \<Longrightarrow> py_index xs k = Inr (xs ! nat k)"
  by (simp add: py_index_def Let_def)

lemma stitch_pair_returns: "\<exists>r. stitch_pair a b c cyc1 cyc2 result = Some (Inr r)"
proof -
  let ?v1 = "vlist cyc1" and ?v2 = "vlist cyc2"
  let ?n1 = "int (length ?v1)" and ?n2 = "int (length ?v2)"
  let ?p1 = "get_pattern ?v1 a b c" and ?p2 = "get_pattern ?v2 a b c"
  obtain ai1 bi1 ci1 where g1: "get_index ?v1 a b c = (ai1, bi1, ci1)"
    by (cases "get_index ?v1 a b c") auto
  obtain ai2 bi2 ci2 where g2: "get_index ?v2 a b c = (ai2, bi2, ci2)"
    by (cases "get_index ?v2 a b c") auto
  show ?thesis
  proof (cases "set ?v1 \<inter> set ?v2 = {b} \<and> ?p1 \<in> {''ab*'', ''a*b''} \<and> ?p2 \<in> {''b*c'', ''bc*''}")
    case False
    then show ?thesis
      by (auto simp: stitch_pair_def g1 g2 Let_def)
  next
    case True
    then have s: "set ?v1 \<inter> set ?v2 = {b}" and p1: "?p1 \<in> {''ab*'', ''a*b''}"
      and p2: "?p2 \<in> {''b*c'', ''bc*''}" by blast+
    from p1 letters_of have "CHR ''a'' \<in> set ?p1" "CHR ''b'' \<in> set ?p1" by auto
    with get_pattern_letters[of ?v1 a b c]
    have m1: "a \<in> set ?v1" "b \<in> set ?v1 \<and> b \<noteq> a" by blast+
    with get_index_bounds[OF g1]
    have r1: "0 \<le> ai1" "ai1 < ?n1" "0 \<le> bi1" "bi1 < ?n1" by blast+
    from p2 letters_of have "CHR ''b'' \<in> set ?p2" "CHR ''c'' \<in> set ?p2" by auto
    with get_pattern_letters[of ?v2 a b c]
    have m2: "b \<in> set ?v2 \<and> b \<noteq> a" "c \<in> set ?v2 \<and> c \<noteq> a \<and> c \<noteq> b" by blast+
    with get_index_bounds[OF g2]
    have r2: "0 \<le> bi2" "bi2 < ?n2" "0 \<le> ci2" "ci2 < ?n2" by blast+
    have n1: "0 < ?n1" and n2: "0 < ?n2" using r1 r2 by linarith+
    define x1 where "x1 = ?v1 ! nat ((ai1 + 1) mod ?n1)"
    define x2 where "x2 = ?v2 ! nat ((bi2 + 1) mod ?n2)"
    have i1: "py_index ?v1 ((ai1 + 1) mod ?n1) = Inr x1"
      unfolding x1_def using n1 by (intro py_index_in_range) simp_all
    have i2: "py_index ?v2 ((bi2 + 1) mod ?n2) = Inr x2"
      unfolding x2_def using n2 by (intro py_index_in_range) simp_all
    define inc1 :: int where "inc1 = (if x1 = b then - 1 else 1)"
    define inc2 :: int where "inc2 = (if x2 = c then - 1 else 1)"
    have "inc1 = 1 \<or> inc1 = - 1" "inc2 = 1 \<or> inc2 = - 1"
      by (simp_all add: inc1_def inc2_def)
    from walk_terminates[OF this(1) r1(3,4) r1(1,2) refl, of "[]"]
    obtain l1 where w1: "walk ?v1 ai1 inc1 bi1 [] = Some (Inr l1)" by blast
    from walk_terminates[OF \<open>inc2 = 1 \<or> inc2 = - 1\<close> r2(3,4) r2(1,2) refl, of l1]
    obtain l2 where w2: "walk ?v2 bi2 inc2 ci2 l1 = Some (Inr l2)" by blast
    from add_one_defined[of "l2 @ [c]" result]
    obtain r where r: "add_one (l2 @ [c]) result = Inr r" by auto
    have "stitch_pair a b c cyc1 cyc2 result = Some (Inr r)"
      using s p1 p2 w1 w2 r
      by (simp add: stitch_pair_def g1 g2 Let_def i1 i2 inc1_def[symmetric] inc2_def[symmetric])
    then show ?thesis by blast
  qed
qed

lemma ofold_returns:
  assumes "\<And>x s. \<exists>r. f x s = Some (Inr r)"
  shows "\<exists>r. ofold f xs s = Some (Inr r)"
proof (induction xs arbitrary: s)
  case Nil
  then show ?case by simp
next
  case (Cons x xs)
  from assms[of x s] obtain s1 where "f x s = Some (Inr s1)" by blast
  with Cons.IH[of s1] show ?case by simp
qed

lemma stitch_pass_returns:
  "\<exists>r. ofold (\<lambda>cyc1. ofold (stitch_pair a b c cyc1) cs) cs result = Some (Inr r)"
  by (intro ofold_returns stitch_pair_returns)

lemma move_step_settled: "settled (move_step cs a b c cycle result)"
proof -
  from move_cycle_settled[of cycle a b c result]
  show ?thesis
  proof
    assume "move_cycle cycle a b c result = Inl ValueError"
    then show ?thesis by (simp add: move_step_def settled_def)
  next
    assume "\<exists>r. move_cycle cycle a b c result = Inr r"
    then obtain r where r: "move_cycle cycle a b c result = Inr r" by blast
    from stitch_pass_returns[of a b c cs r] r show ?thesis
      by (auto simp: move_step_def settled_def)
  qed
qed

text \<open>
  C5.  When some cycle of the input has a pattern outside the rewritten and the
  passed-through sets, \<open>apply_move_edge\<close> raises \<open>ValueError\<close>: the cycles before it
  are rewritten or raise the same exception, the stitching loops always end, and the
  \<open>else\<close> branches raise.  The impossible patterns are outside both sets.
\<close>

theorem move_edge_rejects_unlisted_pattern:
  assumes "cycle \<in> set cs"
    and "get_pattern (vlist cycle) a b c \<notin> rewrite_patterns \<union> passthrough_patterns"
  shows "apply_move_edge cs a b c = Some (Inl ValueError)
       \<and> impossible_patterns \<inter> (rewrite_patterns \<union> passthrough_patterns) = {}"
proof
  have "move_step cs a b c cycle s = Some (Inl ValueError)" for s
    by (simp add: move_step_def move_cycle_raises[OF assms(2)])
  with move_step_settled assms(1) show "apply_move_edge cs a b c = Some (Inl ValueError)"
    unfolding apply_move_edge_def by (intro ofold_raises[where y = cycle]) auto
  show "impossible_patterns \<inter> (rewrite_patterns \<union> passthrough_patterns) = {}"
    by (simp add: impossible_patterns_def rewrite_patterns_def passthrough_patterns_def)
qed

theorem move_edge_rejects_unlisted_pattern_witness:
  "Cyc [0, 2, 5] \<in> set [Cyc [0, 1, 2, 3], Cyc [0, 2, 5]]
   \<and> get_pattern [0, 2, 5] 0 1 2 = ''ac*''
   \<and> ''ac*'' \<notin> rewrite_patterns \<union> passthrough_patterns
   \<and> apply_move_edge [Cyc [0, 1, 2, 3], Cyc [0, 2, 5]] 0 1 2 = Some (Inl ValueError)
   \<and> get_pattern [0, 1, 2] 0 1 2 = ''abc''
   \<and> apply_move_edge [Cyc [0, 1, 2]] 0 1 2 = Some (Inl ValueError)"
proof -
  have p: "get_pattern [0, 2, 5] 0 1 2 = ''ac*''" "get_pattern [0, 1, 2] 0 1 2 = ''abc''"
    by code_simp+
  have n: "''ac*'' \<notin> rewrite_patterns \<union> passthrough_patterns"
    "''abc'' \<notin> rewrite_patterns \<union> passthrough_patterns"
    by (simp_all add: rewrite_patterns_def passthrough_patterns_def)
  have m: "Cyc [0, 2, 5] \<in> set [Cyc [0, 1, 2, 3], Cyc [0, 2, 5]]" "Cyc [0, 1, 2] \<in> set [Cyc [0, 1, 2]]"
    by simp_all
  have h1: "get_pattern (vlist (Cyc [0, 2, 5])) 0 1 2 \<notin> rewrite_patterns \<union> passthrough_patterns"
    using p n by simp
  have h2: "get_pattern (vlist (Cyc [0, 1, 2])) 0 1 2 \<notin> rewrite_patterns \<union> passthrough_patterns"
    using p n by simp
  note move_edge_rejects_unlisted_pattern[OF m(1) h1, THEN conjunct1]
    move_edge_rejects_unlisted_pattern[OF m(2) h2, THEN conjunct1]
  with p n m show ?thesis by simp
qed

section \<open>Properties: the binary codecs\<close>

subsection \<open>Integers\<close>



lemma int_of_le_rev_rev [simp]:
  "int_of_le (case bo of little \<Rightarrow> (case bo of little \<Rightarrow> xs | big \<Rightarrow> rev xs)
                       | big \<Rightarrow> rev (case bo of little \<Rightarrow> xs | big \<Rightarrow> rev xs)) = int_of_le xs"
  by (cases bo) simp_all


subsection \<open>Slices\<close>




subsection \<open>Tags\<close>




subsection \<open>A sequence of encoded items\<close>



subsection \<open>Operations\<close>






subsection \<open>Transformations and histories\<close>






subsection \<open>Cycles\<close>





subsection \<open>Constructed cycles are canonical\<close>

lemma arg_min_loop_keep:
  "\<forall>y\<in>set xs. mv \<le> y \<Longrightarrow> arg_min_loop xs k (Some (mv, mi)) = Some (mv, mi)"
  by (induction xs arbitrary: k) simp_all

lemma arrange_cycle_fixed:
  assumes "\<forall>y\<in>set t. m \<le> y" and "t = [] \<or> \<not> last t < hd t"
  shows "arrange_cycle (m # t) = Inr (m # t)"
proof -
  have a: "arg_min_idx (m # t) = Some 0"
    using arg_min_loop_keep[OF assms(1), of "Suc 0" 0] by (simp add: arg_min_idx_def)
  show ?thesis
  proof (cases "t = []")
    case True
    with a show ?thesis by (simp add: arrange_cycle_def)
  next
    case False
    then have n: "2 \<le> length (m # t)" by (cases t) simp_all
    let ?n = "int (length (m # t))"
    have "(0 - 1) mod ?n = ?n - 1"
      using n by (simp add: zmod_minus1)
    then have e1: "nat ((int 0 - 1) mod ?n) = length t" by simp
    have "(1 :: int) < ?n" using False by simp
    then have "(1 :: int) mod ?n = 1" by (intro mod_pos_pos_trivial) simp_all
    then have e2: "nat ((int 0 + 1) mod ?n) = 1" using False by simp
    have l: "(m # t) ! length t = last t"
      using False by (simp add: last_conv_nth)
    have h: "(m # t) ! 1 = hd t"
      using False by (simp add: hd_conv_nth)
    from assms(2) False have "\<not> last t < hd t" by simp
    then show ?thesis
      unfolding arrange_cycle_def a option.case Let_def e1 e2 l h by simp
  qed
qed

lemma orient_fixed:
  assumes "\<forall>y\<in>set t. m \<le> y"
  shows "arrange_cycle (orient (m # t)) = Inr (orient (m # t))"
proof (cases "t \<noteq> [] \<and> last t < hd t")
  case True
  then have "orient (m # t) = m # rev t" by (simp add: orient_def)
  moreover have "\<not> last (rev t) < hd (rev t)"
    using True by (simp add: last_rev hd_rev)
  moreover have "\<forall>y\<in>set (rev t). m \<le> y" using assms by simp
  ultimately show ?thesis using arrange_cycle_fixed[of "rev t" m] by simp
next
  case False
  then have "orient (m # t) = m # t" by (auto simp: orient_def)
  moreover from False have "t = [] \<or> \<not> last t < hd t" by blast
  ultimately show ?thesis using arrange_cycle_fixed[OF assms] by simp
qed

lemma new_Cycle_idem:
  assumes "new_Cycle vl = Inr c"
  shows "new_Cycle (vlist c) = Inr c"
proof -
  have ne: "vl \<noteq> []"
    using assms by (auto simp: new_Cycle_def arrange_cycle_def arg_min_idx_Nil)
  from arrange_cycle_orient[OF ne] obtain i
    where i: "i < length vl" "vl ! i = Min (set vl)"
      "arrange_cycle vl = Inr (orient (rotate i vl))"
    by metis
  from ne obtain m t where mt: "rotate i vl = m # t"
    by (cases "rotate i vl") auto
  have "m = hd (rotate i vl)" by (simp add: mt)
  also have "\<dots> = vl ! i" using i(1) ne by (simp add: hd_rotate_conv_nth)
  finally have m: "m = Min (set vl)" using i(2) by simp
  have "set t \<subseteq> set vl"
    using mt by (metis set_rotate set_subset_Cons)
  then have "\<forall>y\<in>set t. m \<le> y" using m by auto
  from orient_fixed[OF this] i(3) assms show ?thesis
    by (auto simp: new_Cycle_def mt)
qed



text \<open>
  Outside the format the encoder cuts or pads a tag to two characters and refuses an
  integer that does not fit its field.
\<close>

lemma tag_outside_format:
  "to_bytes little \<lparr>root = py_str ''prism'', elements = []\<rparr> = Inr [112, 114, 0, 0]"
  "history_from_bytes little [112, 114, 0, 0] = Inr \<lparr>root = py_str ''pr'', elements = []\<rparr>"
  "to_bytes little \<lparr>root = py_str ''pr'',
      elements = [\<lparr>alg = py_str ''e1'', ops = [AddEdge 0 70000]\<rparr>]\<rparr> = Inl OverflowError"
  "bytes_from_cycle_list little [Cyc [0, 5, 70000]] = Inl OverflowError"
  by code_simp+

section \<open>Properties: the replay of a history\<close>

subsection \<open>Nested loops\<close>

lemma ebind_cong_fun: "(\<And>x. f x = g x) \<Longrightarrow> ebind m f = ebind m g"
  by (cases m) simp_all

lemma efold_map_Pair: "efold (\<lambda>p. f (fst p) (snd p)) (map (Pair i) ys) s = efold (f i) ys s"
proof (induction ys arbitrary: s)
  case Nil
  show ?case by simp
next
  case (Cons y ys)
  have "efold (\<lambda>p. f (fst p) (snd p)) (map (Pair i) ys) = efold (f i) ys"
    by (rule ext) (rule Cons.IH)
  then show ?case by simp
qed

lemma efold_nested:
  "efold (\<lambda>i. efold (f i) (js i)) xs s
   = efold (\<lambda>p. f (fst p) (snd p)) (concat (map (\<lambda>i. map (Pair i) (js i)) xs)) s"
proof (induction xs arbitrary: s)
  case Nil
  show ?case by simp
next
  case (Cons x xs)
  have "efold (\<lambda>i. efold (f i) (js i)) (x # xs) s
        = ebind (efold (f x) (js x) s) (efold (\<lambda>i. efold (f i) (js i)) xs)"
    by simp
  also have "\<dots> = ebind (efold (f x) (js x) s)
        (efold (\<lambda>p. f (fst p) (snd p)) (concat (map (\<lambda>i. map (Pair i) (js i)) xs)))"
    by (rule ebind_cong_fun) (rule Cons.IH)
  finally show ?case
    by (simp add: efold_append efold_map_Pair)
qed

subsection \<open>The order of the pairs\<close>

lemma tri_pairs_set: "set (tri_pairs n) = {(i, j). 0 \<le> j \<and> j < i \<and> i < n}"
proof (intro set_eqI iffI)
  fix p
  assume "p \<in> set (tri_pairs n)"
  then show "p \<in> {(i, j). 0 \<le> j \<and> j < i \<and> i < n}"
    by (auto simp: tri_pairs_def py_range_def)
next
  fix p :: "int \<times> int"
  assume "p \<in> {(i, j). 0 \<le> j \<and> j < i \<and> i < n}"
  then obtain i j where p: "p = (i, j)" and r: "0 \<le> j" "j < i" "i < n"
    by auto
  from r have "i \<in> set (py_range 1 n)" "p \<in> set (map (Pair i) (py_range 0 i))"
    by (simp_all add: py_range_def p)
  then show "p \<in> set (tri_pairs n)"
    unfolding tri_pairs_def set_concat by (intro UN_I[of "map (Pair i) (py_range 0 i)"]) auto
qed

lemma tri_pairs_Suc:
  "tri_pairs (int (Suc m)) = tri_pairs (int m) @ map (Pair (int m)) (py_range 0 (int m))"
proof (cases m)
  case 0
  then show ?thesis by (simp add: tri_pairs_def py_range_def)
next
  case (Suc k)
  have "[1..int (Suc m) - 1] = [1..int m - 1] @ [int m]"
    using Suc upto_rec2[of 1 "int m"] by simp
  then show ?thesis by (simp add: tri_pairs_def py_range_def)
qed

lemma tri_pairs_length: "2 * length (tri_pairs (int m)) = m * (m - 1)"
proof (induction m)
  case 0
  show ?case by (simp add: tri_pairs_def py_range_def)
next
  case (Suc m)
  have "length (py_range 0 (int m)) = m" by (simp add: py_range_def)
  then have "length (tri_pairs (int (Suc m))) = length (tri_pairs (int m)) + m"
    by (subst tri_pairs_Suc) (simp only: length_append length_map)
  then have "2 * length (tri_pairs (int (Suc m))) = m * (m - 1) + 2 * m"
    using Suc by simp
  also have "\<dots> = Suc m * (Suc m - 1)"
    by (cases m) (simp_all add: algebra_simps)
  finally show ?case .
qed

lemma tri_pairs_nth:
  assumes "j < i" and "i < m"
  shows "2 * k = i * (i - 1) \<Longrightarrow> k + j < length (tri_pairs (int m))
           \<and> tri_pairs (int m) ! (k + j) = (int i, int j)"
  using assms
proof (induction m)
  case 0
  then show ?case by simp
next
  case (Suc m)
  have len: "length (py_range 0 (int m)) = m" by (simp add: py_range_def)
  show ?case
  proof (cases "i < m")
    case True
    from Suc.IH[OF Suc.prems(1,2) True] show ?thesis
      by (subst (1 2) tri_pairs_Suc) (simp add: nth_append)
  next
    case False
    with Suc.prems have i: "i = m" by simp
    from Suc.prems(1) tri_pairs_length[of m] have k: "k = length (tri_pairs (int m))"
      by (simp add: i)
    have "py_range 0 (int m) ! j = int j"
      using Suc.prems(2) i by (simp add: py_range_def)
    then show ?thesis
      using Suc.prems(2) i len by (subst (1 2) tri_pairs_Suc) (simp add: nth_append k)
  qed
qed

subsection \<open>Bytes of bits\<close>

lemma byte_of_Nil [simp]: "byte_of [] = 0"
  by (simp add: byte_of_def)

lemma byte_of_Cons [simp]: "byte_of (b # bs) = of_bool b + 2 * byte_of bs"
  by (simp add: byte_of_def)

lemma byte_of_snoc: "byte_of (bs @ [b]) = byte_of bs + of_bool b * 2 ^ length bs"
  by (induction bs) simp_all

lemma byte_of_less: "byte_of bs < 2 ^ length bs"
  by (induction bs) (auto split: if_splits)

lemma bit_byte_of: "bit (byte_of bs) k \<longleftrightarrow> k < length bs \<and> bs ! k"
proof (induction bs arbitrary: k)
  case Nil
  show ?case by simp
next
  case (Cons b bs)
  show ?case
  proof (cases k)
    case 0
    then show ?thesis by (simp add: bit_0)
  next
    case (Suc m)
    have "(of_bool b + 2 * byte_of bs) div 2 = byte_of bs" by simp
    then show ?thesis using Cons.IH[of m] by (simp add: Suc bit_Suc)
  qed
qed

lemma pack_bits_Nil [simp]: "pack_bits [] = []"
  by (simp add: pack_bits.simps)

lemma pack_bits_short: "bs \<noteq> [] \<Longrightarrow> length bs \<le> 8 \<Longrightarrow> pack_bits bs = [byte_of bs]"
  by (subst pack_bits.simps) simp

lemma pack_bits_full: "length xs = 8 \<Longrightarrow> pack_bits (xs @ ys) = byte_of xs # pack_bits ys"
  by (subst pack_bits.simps) auto

lemma pack_bits_bytes: "x \<in> set (pack_bits bs) \<Longrightarrow> x < 256"
proof (induction bs arbitrary: x rule: pack_bits.induct)
  case (1 bs)
  show ?case
  proof (cases "bs = []")
    case True
    with 1(2) show ?thesis by simp
  next
    case False
    from 1(2) False have "x = byte_of (take 8 bs) \<or> x \<in> set (pack_bits (drop 8 bs))"
      by (subst (asm) pack_bits.simps) simp
    moreover have "byte_of (take 8 bs) < 2 ^ length (take 8 bs)" by (rule byte_of_less)
    moreover have "(2 :: nat) ^ length (take 8 bs) \<le> 2 ^ 8"
      by (rule power_increasing) simp_all
    ultimately show ?thesis using 1(1)[OF False] by auto
  qed
qed

lemma pack_bits_nth:
  "p < length bs \<Longrightarrow> p div 8 < length (pack_bits bs)
     \<and> (bit (pack_bits bs ! (p div 8)) (p mod 8) \<longleftrightarrow> bs ! p)"
proof (induction bs arbitrary: p rule: pack_bits.induct)
  case (1 bs)
  from 1(2) have ne: "bs \<noteq> []" by auto
  have u: "pack_bits bs = byte_of (take 8 bs) # pack_bits (drop 8 bs)"
    using ne by (subst pack_bits.simps) simp
  show ?case
  proof (cases "p < 8")
    case True
    then have "p div 8 = 0" "p mod 8 = p" by simp_all
    with True 1(2) show ?thesis by (simp add: u bit_byte_of)
  next
    case False
    then have q: "p div 8 = Suc ((p - 8) div 8)" "p mod 8 = (p - 8) mod 8"
      by (simp_all add: le_div_geq le_mod_geq)
    from False 1(2) have "p - 8 < length (drop 8 bs)" by simp
    from 1(1)[OF ne this] False 1(2) show ?thesis
      by (simp add: u q)
  qed
qed

subsection \<open>Packing a table\<close>

lemma BITS_nth: "k < 8 \<Longrightarrow> py_index BITS (int k) = Inr (2 ^ k)"
proof -
  assume "k < 8"
  then consider "k = 0" | "k = 1" | "k = 2" | "k = 3" | "k = 4" | "k = 5" | "k = 6" | "k = 7"
    by linarith
  then show ?thesis
    by cases (simp_all add: py_index_def BITS_def)
qed

lemma pack_bit_step:
  assumes "adj_get adj i j = Inr v" and "length cur < 8"
  shows "pack_bit adj i j (ba, byte_of cur, int (length cur))
         = Inr (if length cur = 7 then (ba @ [byte_of (cur @ [v = 1])], 0, 0)
                else (ba, byte_of (cur @ [v = 1]), int (length (cur @ [v = 1]))))"
  using assms BITS_nth[OF assms(2)]
  by (auto simp: pack_bit_def byte_of_snoc)

lemma pack_loop:
  assumes "\<forall>p\<in>set ps. \<exists>v. adj_get adj (fst p) (snd p) = Inr v" and "length cur < 8"
  shows "\<exists>ba' bi' k'. efold (\<lambda>p. pack_bit adj (fst p) (snd p)) ps
                         (ba, byte_of cur, int (length cur)) = Inr (ba', bi', k')
           \<and> (if k' > 0 then ba' @ [bi'] else ba')
               = ba @ pack_bits (cur @ map (\<lambda>p. adj_get adj (fst p) (snd p) = Inr 1) ps)"
  using assms
proof (induction ps arbitrary: ba cur)
  case Nil
  show ?case
  proof (cases "cur = []")
    case True
    then show ?thesis by simp
  next
    case False
    with Nil have "pack_bits cur = [byte_of cur]" by (intro pack_bits_short) simp_all
    with False show ?thesis by simp
  qed
next
  case (Cons p ps)
  from Cons.prems(1) obtain v where v: "adj_get adj (fst p) (snd p) = Inr v" by auto
  from Cons.prems(1) have rest: "\<forall>p\<in>set ps. \<exists>v. adj_get adj (fst p) (snd p) = Inr v" by simp
  let ?b = "v = 1"
  have vb: "(adj_get adj (fst p) (snd p) = Inr 1) = ?b" using v by auto
  note st = pack_bit_step[OF v Cons.prems(2), of ba]
  show ?case
  proof (cases "length cur = 7")
    case True
    have "byte_of [] = 0" "int (length ([] :: bool list)) = 0" by simp_all
    from Cons.IH[OF rest, of "[]" "ba @ [byte_of (cur @ [?b])]"]
    obtain ba' bi' k' where
      f: "efold (\<lambda>p. pack_bit adj (fst p) (snd p)) ps (ba @ [byte_of (cur @ [?b])], 0, 0)
            = Inr (ba', bi', k')"
      and r: "(if k' > 0 then ba' @ [bi'] else ba')
            = (ba @ [byte_of (cur @ [?b])])
              @ pack_bits (map (\<lambda>p. adj_get adj (fst p) (snd p) = Inr 1) ps)"
      by auto
    have "pack_bits ((cur @ [?b]) @ map (\<lambda>p. adj_get adj (fst p) (snd p) = Inr 1) ps)
            = byte_of (cur @ [?b]) # pack_bits (map (\<lambda>p. adj_get adj (fst p) (snd p) = Inr 1) ps)"
      by (rule pack_bits_full) (simp add: True)
    with f r st True show ?thesis by (simp add: vb)
  next
    case False
    with Cons.prems(2) have "length (cur @ [?b]) < 8" by simp
    from Cons.IH[OF rest this, of ba]
    obtain ba' bi' k' where
      f: "efold (\<lambda>p. pack_bit adj (fst p) (snd p)) ps
            (ba, byte_of (cur @ [?b]), int (length (cur @ [?b]))) = Inr (ba', bi', k')"
      and r: "(if k' > 0 then ba' @ [bi'] else ba')
            = ba @ pack_bits ((cur @ [?b]) @ map (\<lambda>p. adj_get adj (fst p) (snd p) = Inr 1) ps)"
      by auto
    with st False show ?thesis by (simp add: vb)
  qed
qed

lemma bytes_from_adj_packed:
  assumes "\<forall>p\<in>set (tri_pairs (int (length adj))). \<exists>v. adj_get adj (fst p) (snd p) = Inr v"
  shows "bytes_from_adj adj
         = Inr (pack_bits (map (\<lambda>p. adj_get adj (fst p) (snd p) = Inr 1)
                  (tri_pairs (int (length adj)))))"
proof -
  let ?ps = "tri_pairs (int (length adj))"
  let ?bits = "map (\<lambda>p. adj_get adj (fst p) (snd p) = Inr 1) ?ps"
  have "byte_of [] = 0" "int (length ([] :: bool list)) = 0" by simp_all
  from pack_loop[OF assms, of "[]" "[]"]
  obtain ba' bi' k' where
    f: "efold (\<lambda>p. pack_bit adj (fst p) (snd p)) ?ps ([], 0, 0) = Inr (ba', bi', k')"
    and r: "(if k' > 0 then ba' @ [bi'] else ba') = pack_bits ?bits"
    by auto
  have "py_bytes (pack_bits ?bits) = Inr (pack_bits ?bits)"
    using pack_bits_bytes by (auto simp: py_bytes_def)
  with f r show ?thesis
    by (simp add: bytes_from_adj_def Let_def efold_nested tri_pairs_def[symmetric])
qed

lemma bytes_from_adj_reads:
  assumes "bytes_from_adj adj = Inr b" and "p \<in> set (tri_pairs (int (length adj)))"
  shows "\<exists>v. adj_get adj (fst p) (snd p) = Inr v"
proof -
  from assms(1) obtain s where
    "efold (\<lambda>p. pack_bit adj (fst p) (snd p)) (tri_pairs (int (length adj))) ([], 0, 0) = Inr s"
    by (auto simp: bytes_from_adj_def Let_def efold_nested tri_pairs_def[symmetric]
        ebind_Inr_iff)
  from efold_Inr_step[OF this assms(2)] show ?thesis
    by (auto simp: pack_bit_def ebind_Inr_iff split: prod.splits)
qed

subsection \<open>Reading a bit\<close>

lemma triangle_even: "\<exists>k. 2 * k = i * (i - 1)" for i :: nat
proof (induction i)
  case 0
  show ?case by simp
next
  case (Suc i)
  then obtain k where "2 * k = i * (i - 1)" by blast
  then have "2 * (k + i) = Suc i * (Suc i - 1)"
    by (cases i) (simp_all add: algebra_simps)
  then show ?case by blast
qed

lemma are_conn_packed:
  assumes "j < i" and "i < m"
  shows "are_conn (pack_bits (map f (tri_pairs (int m)))) (int m) (int i) (int j)
         = Inr (f (int i, int j))"
proof -
  obtain k where k: "2 * k = i * (i - 1)" using triangle_even by blast
  let ?p = "k + j"
  let ?b = "pack_bits (map f (tri_pairs (int m)))"
  from tri_pairs_nth[OF assms k]
  have len: "?p < length (tri_pairs (int m))" and nth: "tri_pairs (int m) ! ?p = (int i, int j)"
    by simp_all
  from len have "?p < length (map f (tri_pairs (int m)))" by simp
  from pack_bits_nth[OF this]
  have d: "?p div 8 < length ?b" and bt: "bit (?b ! (?p div 8)) (?p mod 8) \<longleftrightarrow> f (int i, int j)"
    using len nth by simp_all
  have "int i * (int i - 1) = int (i * (i - 1))"
    using assms(1) by (cases i) (simp_all add: algebra_simps)
  also have "\<dots> = 2 * int k" using k by (metis of_nat_mult of_nat_numeral)
  finally have "drop_bit 1 (int i * (int i - 1)) = int k"
    by (simp add: drop_bit_int_def)
  then have bi: "drop_bit (Suc 0) (int i * (int i - 1)) + int j = int ?p" by simp
  have x: "py_index ?b (drop_bit 3 (int k + int j)) = Inr (?b ! (?p div 8))"
  proof -
    have "drop_bit 3 (int k + int j) = int (?p div 8)"
      by (simp add: drop_bit_int_def zdiv_int)
    with d show ?thesis by (simp add: py_index_def)
  qed
  have fl: "py_index FLAGS ((int k + int j) mod 8) = Inr (2 ^ (?p mod 8))"
  proof -
    have "(int k + int j) mod 8 = int (?p mod 8)" by (simp add: zmod_int)
    then show ?thesis
      using BITS_nth[of "?p mod 8"] by (simp add: FLAGS_def)
  qed
  have "are_conn ?b (int m) (int i) (int j) = Inr (?b ! (?p div 8) AND 2 ^ (?p mod 8) \<noteq> 0)"
    using assms unfolding are_conn_def Let_def
    by (simp add: bi x fl)
  then show ?thesis
    by (simp add: and_exp_eq_0_iff_not_bit bt)
qed

subsection \<open>Tables\<close>

lemma py_index_vertex:
  assumes "py_index xs i = Inr x"
  shows "0 \<le> vertex_id (int (length xs)) i \<and> vertex_id (int (length xs)) i < int (length xs)
         \<and> x = xs ! nat (vertex_id (int (length xs)) i)"
  using assms by (auto simp: py_index_def vertex_id_def Let_def split: if_splits)

lemma py_index_at:
  assumes "0 \<le> vertex_id (int (length xs)) i" and "vertex_id (int (length xs)) i < int (length xs)"
  shows "py_index xs i = Inr (xs ! nat (vertex_id (int (length xs)) i))"
  using assms by (auto simp: py_index_def vertex_id_def Let_def)

lemma py_store_at:
  assumes "0 \<le> vertex_id (int (length xs)) i" and "vertex_id (int (length xs)) i < int (length xs)"
  shows "py_store xs i v = Inr (xs[nat (vertex_id (int (length xs)) i) := v])"
  using assms by (auto simp: py_store_def vertex_id_def Let_def)

lemma adj_get_table:
  assumes "table N M" and "adj_get M i j = Inr x"
  shows "\<exists>a b. a < N \<and> b < N \<and> vertex_id (int N) i = int a \<and> vertex_id (int N) j = int b
           \<and> x = M ! a ! b"
proof -
  from assms(1) have l: "length M = N" and r: "\<And>a. a < N \<Longrightarrow> length (M ! a) = N"
    by (auto simp: table_def)
  from assms(2) obtain row where row: "py_index M i = Inr row" and x: "py_index row j = Inr x"
    by (auto simp: adj_get_def ebind_Inr_iff)
  from py_index_vertex[OF row] l
  have a: "0 \<le> vertex_id (int N) i" "vertex_id (int N) i < int N"
    "row = M ! nat (vertex_id (int N) i)" by simp_all
  then have lr: "length row = N" using r[of "nat (vertex_id (int N) i)"] by simp
  from py_index_vertex[OF x] lr
  have b: "0 \<le> vertex_id (int N) j" "vertex_id (int N) j < int N"
    "x = row ! nat (vertex_id (int N) j)" by simp_all
  let ?a = "nat (vertex_id (int N) i)" and ?b = "nat (vertex_id (int N) j)"
  have "?a < N" "?b < N" "vertex_id (int N) i = int ?a" "vertex_id (int N) j = int ?b"
    "x = M ! ?a ! ?b"
    using a b by simp_all
  then show ?thesis by blast
qed

lemma adj_set_table:
  assumes "table N M" and "a < N" and "b < N"
    and "vertex_id (int N) i = int a" and "vertex_id (int N) j = int b"
  shows "adj_set M i j v = Inr (M[a := (M ! a)[b := v]])"
    and "table N (M[a := (M ! a)[b := v]])"
proof -
  from assms(1) have l: "length M = N" and r: "\<And>a. a < N \<Longrightarrow> length (M ! a) = N"
    by (auto simp: table_def)
  have 1: "py_index M i = Inr (M ! a)"
    using py_index_at[of M i] l assms(2,4) by simp
  have 2: "py_store (M ! a) j v = Inr ((M ! a)[b := v])"
    using py_store_at[of "M ! a" j v] r[OF assms(2)] assms(3,5) by simp
  have 3: "py_store M i ((M ! a)[b := v]) = Inr (M[a := (M ! a)[b := v]])"
    using py_store_at[of M i] l assms(2,4) by simp
  show "adj_set M i j v = Inr (M[a := (M ! a)[b := v]])"
    by (simp add: adj_set_def 1 2 3)
  show "table N (M[a := (M ! a)[b := v]])"
    using assms(1,2) by (auto simp: table_def dest!: set_update_subset_insert[THEN subsetD])
qed

lemma set_both:
  assumes "table N M" and "a < N" and "b < N"
    and "vertex_id (int N) i = int a" and "vertex_id (int N) j = int b"
  shows "\<exists>M'. ebind (adj_set M i j v) (\<lambda>M1. adj_set M1 j i v) = Inr M' \<and> table N M'
           \<and> (\<forall>x y. x < N \<and> y < N \<longrightarrow>
                 M' ! x ! y = (if (x = a \<and> y = b) \<or> (x = b \<and> y = a) then v else M ! x ! y))"
proof -
  let ?M1 = "M[a := (M ! a)[b := v]]"
  let ?M2 = "?M1[b := (?M1 ! b)[a := v]]"
  note s1 = adj_set_table[OF assms, of v]
  note s2 = adj_set_table[OF s1(2) assms(3,2,5,4), of v]
  from assms(1) have l: "length M = N" and r: "\<And>a. a < N \<Longrightarrow> length (M ! a) = N"
    by (auto simp: table_def)
  have "?M2 ! x ! y = (if (x = a \<and> y = b) \<or> (x = b \<and> y = a) then v else M ! x ! y)"
    if "x < N" "y < N" for x y
    using that assms(2,3) l r by (auto simp: nth_list_update)
  with s1 s2 show ?thesis by simp
qed

subsection \<open>Decoding the bits into a table\<close>

lemma vertex_id_nonneg [simp]: "vertex_id n (int a) = int a"
  by (simp add: vertex_id_def)

lemma mark_loop:
  assumes "table N M0" and "\<forall>p\<in>set ps. \<exists>i j. p = (int i, int j) \<and> j < i \<and> i < m"
    and "m \<le> N"
  shows "\<exists>M. efold (\<lambda>p. mark_conn (pack_bits (map f (tri_pairs (int m)))) (int m) (fst p) (snd p))
               ps M0 = Inr M
           \<and> table N M
           \<and> (\<forall>x y. y < x \<and> x < N \<longrightarrow>
                (M ! x ! y = 1 \<longleftrightarrow>
                   M0 ! x ! y = 1 \<or> ((int x, int y) \<in> set ps \<and> f (int x, int y))))"
  using assms(1,2)
proof (induction ps arbitrary: M0)
  case Nil
  then show ?case by simp
next
  case (Cons p ps)
  let ?ba = "pack_bits (map f (tri_pairs (int m)))"
  from Cons.prems(2) obtain i j where p: "p = (int i, int j)" and ji: "j < i" and im: "i < m"
    by auto
  from Cons.prems(2) have rest: "\<forall>p\<in>set ps. \<exists>i j. p = (int i, int j) \<and> j < i \<and> i < m"
    by simp
  have c: "are_conn ?ba (int m) (int i) (int j) = Inr (f (int i, int j))"
    by (rule are_conn_packed[OF ji im])
  from im ji assms(3) have iN: "i < N" and jN: "j < N" by simp_all
  obtain M1 where m1: "mark_conn ?ba (int m) (int i) (int j) M0 = Inr M1" and t1: "table N M1"
    and e1: "\<And>x y. y < x \<Longrightarrow> x < N \<Longrightarrow>
               (M1 ! x ! y = 1 \<longleftrightarrow> M0 ! x ! y = 1 \<or> (x = i \<and> y = j \<and> f (int i, int j)))"
  proof (cases "f (int i, int j)")
    case True
    from set_both[OF Cons.prems(1) iN jN, of "int i" "int j" 1]
    obtain M' where s: "ebind (adj_set M0 (int i) (int j) 1) (\<lambda>M1. adj_set M1 (int j) (int i) 1)
                          = Inr M'"
      and t: "table N M'"
      and e: "\<And>x y. x < N \<Longrightarrow> y < N \<Longrightarrow>
                M' ! x ! y = (if (x = i \<and> y = j) \<or> (x = j \<and> y = i) then 1 else M0 ! x ! y)"
      by auto
    have "mark_conn ?ba (int m) (int i) (int j) M0 = Inr M'"
      by (simp add: mark_conn_def c True s)
    moreover have "M' ! x ! y = 1 \<longleftrightarrow> M0 ! x ! y = 1 \<or> (x = i \<and> y = j \<and> f (int i, int j))"
      if "y < x" "x < N" for x y
      using that ji e[of x y] True by auto
    ultimately show ?thesis using that t by blast
  next
    case False
    have "mark_conn ?ba (int m) (int i) (int j) M0 = Inr M0"
      by (simp add: mark_conn_def c False)
    with False Cons.prems(1) show ?thesis using that by blast
  qed
  from Cons.IH[OF t1 rest] obtain M
    where f: "efold (\<lambda>p. mark_conn ?ba (int m) (fst p) (snd p)) ps M1 = Inr M"
      and t: "table N M"
      and e: "\<And>x y. y < x \<Longrightarrow> x < N \<Longrightarrow>
               (M ! x ! y = 1 \<longleftrightarrow>
                  M1 ! x ! y = 1 \<or> ((int x, int y) \<in> set ps \<and> f (int x, int y)))"
    by blast
  have "efold (\<lambda>p. mark_conn ?ba (int m) (fst p) (snd p)) (p # ps) M0 = Inr M"
    by (simp add: p m1 f)
  moreover have "M ! x ! y = 1 \<longleftrightarrow>
      M0 ! x ! y = 1 \<or> ((int x, int y) \<in> set (p # ps) \<and> f (int x, int y))"
    if "y < x" "x < N" for x y
    using e[OF that] e1[OF that] by (auto simp: p)
  ultimately show ?case using t by blast
qed

lemma tri_pairs_nat:
  assumes "p \<in> set (tri_pairs (int m))"
  shows "\<exists>i j. p = (int i, int j) \<and> j < i \<and> i < m"
proof -
  from assms obtain a b where p: "p = (a, b)" and r: "0 \<le> b" "b < a" "a < int m"
    by (auto simp: tri_pairs_set)
  then have "p = (int (nat a), int (nat b))" "nat b < nat a" "nat a < m" by simp_all
  then show ?thesis by blast
qed

lemma ext_adj_table:
  assumes "0 \<le> n_ext" and "\<forall>p\<in>E. fst p < int m"
  shows "\<exists>M. ext_adj_from_bytes (adjacency_bits (int m) E) (int m) n_ext = Inr M
           \<and> table (m + nat n_ext) M \<and> lower_edges (m + nat n_ext) M E"
proof -
  let ?N = "m + nat n_ext"
  let ?M0 = "replicate ?N (replicate ?N (0 :: int))"
  have n: "nat (int m + n_ext) = ?N" using assms(1) by simp
  have t0: "table ?N ?M0" by (simp add: table_def)
  have "\<forall>p\<in>set (tri_pairs (int m)). \<exists>i j. p = (int i, int j) \<and> j < i \<and> i < m"
    using tri_pairs_nat by blast
  from mark_loop[OF t0 this, of "\<lambda>p. p \<in> E"] obtain M
    where f: "efold (\<lambda>p. mark_conn (pack_bits (map (\<lambda>p. p \<in> E) (tri_pairs (int m)))) (int m)
                (fst p) (snd p)) (tri_pairs (int m)) ?M0 = Inr M"
      and t: "table ?N M"
      and e: "\<And>x y. y < x \<Longrightarrow> x < ?N \<Longrightarrow>
               (M ! x ! y = 1 \<longleftrightarrow>
                  ?M0 ! x ! y = 1 \<or> ((int x, int y) \<in> set (tri_pairs (int m)) \<and> (int x, int y) \<in> E))"
    by auto
  have "ext_adj_from_bytes (adjacency_bits (int m) E) (int m) n_ext = Inr M"
    using f by (simp add: ext_adj_from_bytes_def adjacency_bits_def n efold_nested
        tri_pairs_def[symmetric])
  moreover have "lower_edges ?N M E"
    unfolding lower_edges_def
  proof (intro allI impI)
    fix i j
    assume a: "j < i \<and> i < ?N"
    then have "?M0 ! i ! j = 0" by simp
    with e[of j i] a have "M ! i ! j = 1 \<longleftrightarrow>
        (int i, int j) \<in> set (tri_pairs (int m)) \<and> (int i, int j) \<in> E"
      by simp
    also have "\<dots> \<longleftrightarrow> (int i, int j) \<in> E"
      using a assms(2) by (auto simp: tri_pairs_set)
    finally show "M ! i ! j = 1 \<longleftrightarrow> (int i, int j) \<in> E" .
  qed
  ultimately show ?thesis using t by blast
qed

subsection \<open>Editing the table\<close>

lemma pair_of_nat:
  "y < x \<Longrightarrow> (int x, int y) = pair_of (int a) (int b) \<longleftrightarrow> (x = a \<and> y = b) \<or> (x = b \<and> y = a)"
  by (auto simp: pair_of_def max_def min_def)

lemma apply_op_edges:
  assumes "table N M" and "lower_edges N M E" and "apply_op x M = Inr M'"
  shows "table N M' \<and> lower_edges N M' (replay_op (int N) x E)
         \<and> ((\<forall>p\<in>E. fst p < int N) \<longrightarrow> (\<forall>p\<in>replay_op (int N) x E. fst p < int N))"
proof (cases x)
  case AddVertex
  with assms show ?thesis by simp
next
  case (AddEdge i j)
  from assms(3) obtain v where g: "adj_get M i j = Inr v"
    and s: "ebind (adj_set M i j 1) (\<lambda>a. adj_set a j i 1) = Inr M'"
    by (auto simp: AddEdge ebind_Inr_iff split: if_splits)
  from adj_get_table[OF assms(1) g] obtain a b where ab: "a < N" "b < N"
    "vertex_id (int N) i = int a" "vertex_id (int N) j = int b" by blast
  from set_both[OF assms(1) ab, of 1] s
  have t: "table N M'"
    and e: "\<And>x y. x < N \<Longrightarrow> y < N \<Longrightarrow>
              M' ! x ! y = (if (x = a \<and> y = b) \<or> (x = b \<and> y = a) then 1 else M ! x ! y)"
    by auto
  have "lower_edges N M' (insert (pair_of (int a) (int b)) E)"
    unfolding lower_edges_def
  proof (intro allI impI)
    fix x y
    assume a: "y < x \<and> x < N"
    then have "M ! x ! y = 1 \<longleftrightarrow> (int x, int y) \<in> E"
      using assms(2) by (simp add: lower_edges_def)
    with a e[of x y] pair_of_nat[of y x a b]
    show "M' ! x ! y = 1 \<longleftrightarrow> (int x, int y) \<in> insert (pair_of (int a) (int b)) E"
      by auto
  qed
  moreover have "fst (pair_of (int a) (int b)) < int N"
    using ab(1,2) by (simp add: pair_of_def)
  ultimately show ?thesis using t by (simp add: AddEdge ab(3,4))
next
  case (DelEdge i j)
  from assms(3) obtain v where g: "adj_get M i j = Inr v"
    and s: "ebind (adj_set M i j 0) (\<lambda>a. adj_set a j i 0) = Inr M'"
    by (auto simp: DelEdge ebind_Inr_iff split: if_splits)
  from adj_get_table[OF assms(1) g] obtain a b where ab: "a < N" "b < N"
    "vertex_id (int N) i = int a" "vertex_id (int N) j = int b" by blast
  from set_both[OF assms(1) ab, of 0] s
  have t: "table N M'"
    and e: "\<And>x y. x < N \<Longrightarrow> y < N \<Longrightarrow>
              M' ! x ! y = (if (x = a \<and> y = b) \<or> (x = b \<and> y = a) then 0 else M ! x ! y)"
    by auto
  have "lower_edges N M' (E - {pair_of (int a) (int b)})"
    unfolding lower_edges_def
  proof (intro allI impI)
    fix x y
    assume a: "y < x \<and> x < N"
    then have "M ! x ! y = 1 \<longleftrightarrow> (int x, int y) \<in> E"
      using assms(2) by (simp add: lower_edges_def)
    with a e[of x y] pair_of_nat[of y x a b]
    show "M' ! x ! y = 1 \<longleftrightarrow> (int x, int y) \<in> E - {pair_of (int a) (int b)}"
      by auto
  qed
  then show ?thesis using t by (auto simp: DelEdge ab(3,4))
qed

lemma apply_ops_edges:
  assumes "table N M" and "lower_edges N M E" and "\<forall>p\<in>E. fst p < int N"
    and "efold apply_op xs M = Inr M'"
  shows "table N M' \<and> lower_edges N M' (fold (replay_op (int N)) xs E)
         \<and> (\<forall>p\<in>fold (replay_op (int N)) xs E. fst p < int N)"
  using assms
proof (induction xs arbitrary: M E)
  case Nil
  then show ?case by simp
next
  case (Cons x xs)
  from Cons.prems(4) obtain M1 where 1: "apply_op x M = Inr M1"
    and 2: "efold apply_op xs M1 = Inr M'"
    by (auto simp: ebind_Inr_iff)
  from apply_op_edges[OF Cons.prems(1,2) 1] Cons.prems(3)
  have "table N M1" "lower_edges N M1 (replay_op (int N) x E)"
    "\<forall>p\<in>replay_op (int N) x E. fst p < int N"
    by blast+
  from Cons.IH[OF this 2] show ?case by simp
qed

subsection \<open>One transformation\<close>

lemma count_ext_AddVertex: "count_ext xs = int (length (filter (\<lambda>x. x = AddVertex) xs))"
proof (induction xs)
  case Nil
  show ?case by (simp add: count_ext_def)
next
  case (Cons x xs)
  then show ?case by (cases x) (simp_all add: count_ext_def)
qed

lemma adj_get_nat:
  assumes "table N M" and "i < N" and "j < N"
  shows "adj_get M (int i) (int j) = Inr (M ! i ! j)"
proof -
  from assms have l: "length M = N" "length (M ! i) = N" by (auto simp: table_def)
  have "py_index M (int i) = Inr (M ! i)" using assms(2) l(1) by (simp add: py_index_def)
  moreover have "py_index (M ! i) (int j) = Inr (M ! i ! j)"
    using assms(3) l(2) by (simp add: py_index_def)
  ultimately show ?thesis by (simp add: adj_get_def)
qed

lemma bytes_from_adj_table:
  assumes "table N M" and "lower_edges N M E"
  shows "bytes_from_adj M = Inr (adjacency_bits (int N) E)"
proof -
  from assms(1) have l: "length M = N" by (simp add: table_def)
  have g: "adj_get M (fst p) (snd p) = Inr 1 \<longleftrightarrow> p \<in> E"
    and d: "\<exists>v. adj_get M (fst p) (snd p) = Inr v"
    if "p \<in> set (tri_pairs (int N))" for p
  proof -
    from tri_pairs_nat[OF that] obtain i j where p: "p = (int i, int j)" and r: "j < i" "i < N"
      by blast
    from r have "j < N" by simp
    from adj_get_nat[OF assms(1) r(2) this] have a: "adj_get M (fst p) (snd p) = Inr (M ! i ! j)"
      by (simp add: p)
    then show "\<exists>v. adj_get M (fst p) (snd p) = Inr v" by blast
    from a r assms(2) show "adj_get M (fst p) (snd p) = Inr 1 \<longleftrightarrow> p \<in> E"
      by (simp add: p lower_edges_def)
  qed
  have me: "map (\<lambda>p. adj_get M (fst p) (snd p) = Inr 1) (tri_pairs (int N))
          = map (\<lambda>p. p \<in> E) (tri_pairs (int N))"
    by (rule map_cong[OF refl]) (rule g)
  have "\<forall>p\<in>set (tri_pairs (int (length M))). \<exists>v. adj_get M (fst p) (snd p) = Inr v"
    using d l by simp
  then have "bytes_from_adj M
         = Inr (pack_bits (map (\<lambda>p. adj_get M (fst p) (snd p) = Inr 1)
                  (tri_pairs (int (length M)))))"
    by (rule bytes_from_adj_packed)
  then show ?thesis
    unfolding l me adjacency_bits_def .
qed

lemma apply_transformation_replay:
  assumes "apply_transformation g t = Inr g'"
    and "size_bx g = int m" and "badj g = adjacency_bits (int m) E" and "\<forall>p\<in>E. fst p < int m"
  shows "\<exists>m' E'. replay_tx t (int m, E) = (int m', E') \<and> size_bx g' = int m'
           \<and> badj g' = adjacency_bits (int m') E' \<and> (\<forall>p\<in>E'. fst p < int m')"
proof -
  let ?k = "length (filter (\<lambda>x. x = AddVertex) (ops t))"
  let ?N = "m + ?k"
  let ?E' = "fold (replay_op (int ?N)) (ops t) E"
  have ce: "count_ext (ops t) = int ?k" by (rule count_ext_AddVertex)
  from ext_adj_table[OF _ assms(4), of "int ?k"] obtain M
    where x: "ext_adj_from_bytes (adjacency_bits (int m) E) (int m) (int ?k) = Inr M"
      and t: "table ?N M" and e: "lower_edges ?N M E"
    by auto
  from assms(1) obtain M' b
    where a: "efold apply_op (ops t) M = Inr M'" and b: "bytes_from_adj M' = Inr b"
      and n: "new_BXGraph \<lparr>root = root (history g),
                 elements = elements (history g) @ [t]\<rparr> (int m + int ?k) b = Inr g'"
    by (auto simp: apply_transformation_def Let_def ce assms(2,3) x ebind_Inr_iff)
  from assms(4) have bound: "\<forall>p\<in>E. fst p < int ?N" by auto
  from apply_ops_edges[OF t e bound a]
  have t': "table ?N M'" and e': "lower_edges ?N M' ?E'" and bound': "\<forall>p\<in>?E'. fst p < int ?N"
    by simp_all
  from bytes_from_adj_table[OF t' e'] b have b': "b = adjacency_bits (int ?N) ?E'" by simp
  from n have "size_bx g' = int ?N" "badj g' = b"
    by (auto simp: new_BXGraph_def ebind_Inr_iff)
  moreover have "replay_tx t (int m, E) = (int ?N, ?E')"
    by (simp add: replay_tx_def Let_def)
  ultimately show ?thesis using b' bound' by blast
qed

subsection \<open>The root\<close>

lemma adj_get_value:
  assumes "adj_get M i j = Inr v" and "0 \<le> i" and "0 \<le> j"
  shows "v = M ! nat i ! nat j"
proof -
  from assms(1) obtain row where row: "py_index M i = Inr row" and v: "py_index row j = Inr v"
    by (auto simp: adj_get_def ebind_Inr_iff)
  from py_index_vertex[OF row] assms(2) have "row = M ! nat i" by (simp add: vertex_id_def)
  moreover from py_index_vertex[OF v] assms(3) have "v = row ! nat j" by (simp add: vertex_id_def)
  ultimately show ?thesis by simp
qed

lemma graph_from_root_replay:
  assumes "graph_from_root r adj = Inr g"
  shows "size_bx g = int (length adj)
       \<and> badj g = adjacency_bits (int (length adj)) (root_edges adj)
       \<and> (\<forall>p\<in>root_edges adj. fst p < int (length adj))"
proof -
  let ?n = "int (length adj)"
  from assms obtain b where b: "bytes_from_adj adj = Inr b"
    and n: "new_BXGraph \<lparr>root = r, elements = []\<rparr> ?n b = Inr g"
    by (auto simp: graph_from_root_def ebind_Inr_iff)
  have d: "\<forall>p\<in>set (tri_pairs ?n). \<exists>v. adj_get adj (fst p) (snd p) = Inr v"
    using bytes_from_adj_reads[OF b] by blast
  have "adj_get adj (fst p) (snd p) = Inr 1 \<longleftrightarrow> p \<in> root_edges adj"
    if p: "p \<in> set (tri_pairs ?n)" for p
  proof -
    from d p obtain v where v: "adj_get adj (fst p) (snd p) = Inr v" by blast
    from p have "0 \<le> fst p" "0 \<le> snd p" by (auto simp: tri_pairs_set)
    from adj_get_value[OF v this] have "v = adj ! nat (fst p) ! nat (snd p)" .
    with v p show ?thesis by (auto simp: root_edges_def)
  qed
  then have "map (\<lambda>p. adj_get adj (fst p) (snd p) = Inr 1) (tri_pairs ?n)
          = map (\<lambda>p. p \<in> root_edges adj) (tri_pairs ?n)"
    by (intro map_cong[OF refl])
  with bytes_from_adj_packed[OF d] b have "b = adjacency_bits ?n (root_edges adj)"
    by (simp add: adjacency_bits_def)
  moreover from n have "size_bx g = ?n" "badj g = b"
    by (auto simp: new_BXGraph_def ebind_Inr_iff)
  moreover have "\<forall>p\<in>root_edges adj. fst p < ?n"
    by (auto simp: root_edges_def tri_pairs_set)
  ultimately show ?thesis by simp
qed

subsection \<open>Every produced graph\<close>

lemma replay_history_snoc: "replay_history adj (ts @ [t]) = replay_tx t (replay_history adj ts)"
  by (simp add: replay_history_def)

lemma produced_replay:
  assumes "produced r adj g"
  shows "\<exists>m E. replay_history adj (elements (history g)) = (int m, E) \<and> size_bx g = int m
           \<and> badj g = adjacency_bits (int m) E \<and> (\<forall>p\<in>E. fst p < int m)"
  using assms
proof (induction rule: produced.induct)
  case (seed g)
  from graph_from_root_replay[OF seed] graph_from_root_history[OF seed]
  show ?case by (simp add: replay_history_def)
next
  case (step g t g')
  from step.IH obtain m E where h: "replay_history adj (elements (history g)) = (int m, E)"
    and s: "size_bx g = int m" and b: "badj g = adjacency_bits (int m) E"
    and bound: "\<forall>p\<in>E. fst p < int m"
    by blast
  from apply_transformation_replay[OF step.hyps(2) s b bound] obtain m' E'
    where "replay_tx t (int m, E) = (int m', E')" "size_bx g' = int m'"
      "badj g' = adjacency_bits (int m') E'" "\<forall>p\<in>E'. fst p < int m'"
    by blast
  moreover have "elements (history g') = elements (history g) @ [t]"
    using apply_transformation_history[OF step.hyps(2)] by simp
  ultimately show ?case
    by (simp add: replay_history_snoc h)
qed

lemma conn_adjacency_bits:
  assumes "size_bx g = int m" and "badj g = adjacency_bits (int m) E"
    and "0 \<le> j" and "j < i" and "i < int m"
  shows "conn g i j = Inr ((i, j) \<in> E)"
proof -
  from assms(3-5) have "nat j < nat i" "nat i < m" by simp_all
  from are_conn_packed[OF this, of "\<lambda>p. p \<in> E"] assms show ?thesis
    by (simp add: conn_def adjacency_bits_def)
qed

text \<open>
  C1.  For every graph produced from a root (seeded by \<open>graph_from_root\<close>, extended by
  \<open>apply_transformation\<close> only), replaying the recorded history from the root's adjacency
  table, one operation after the other, gives the size of the graph and the set of
  pairs whose bits are its adjacency bytes: \<open>badj\<close> is that set packed bit for bit, and
  \<open>conn\<close> answers by it.  The code run again on the history returns the graph itself.
\<close>

theorem replay_reproduces_graph:
  assumes "produced r adj g"
  shows "root (history g) = r
       \<and> size_bx g = fst (replay_history adj (elements (history g)))
       \<and> badj g = adjacency_bits (size_bx g) (snd (replay_history adj (elements (history g))))
       \<and> (\<forall>i j. 0 \<le> j \<and> j < i \<and> i < size_bx g \<longrightarrow>
             conn g i j = Inr ((i, j) \<in> snd (replay_history adj (elements (history g)))))
       \<and> replay r adj (elements (history g)) = Inr g"
proof -
  from produced_replay[OF assms] obtain m E
    where h: "replay_history adj (elements (history g)) = (int m, E)"
      and s: "size_bx g = int m" and b: "badj g = adjacency_bits (int m) E"
    by blast
  have "conn g i j = Inr ((i, j) \<in> E)" if "0 \<le> j" "j < i" "i < int m" for i j
    by (rule conn_adjacency_bits[OF s b that])
  with replay_produced[OF assms] h s b show ?thesis by simp
qed

lemma prism_c1_step:
  "apply_transformation prism_e1
     \<lparr>alg = py_str ''c1'',
      ops = [AddVertex, DelEdge 0 1, AddEdge 0 6, AddEdge 1 6, DelEdge 1 2, AddEdge 2 6]\<rparr>
   = Inr prism_c1"
  by code_simp

theorem replay_reproduces_graph_witness:
  "produced (py_str ''pr'') prism prism_c1
   \<and> replay_history prism (elements (history prism_c1))
       = (7, {(2, 0), (3, 0), (4, 0), (4, 1), (4, 3), (5, 2), (5, 3), (5, 4), (6, 0), (6, 1),
              (6, 2)})
   \<and> size_bx prism_c1 = 7
   \<and> badj prism_c1 = adjacency_bits 7
       {(2, 0), (3, 0), (4, 0), (4, 1), (4, 3), (5, 2), (5, 3), (5, 4), (6, 0), (6, 1), (6, 2)}
   \<and> badj prism_c1 = [202, 242, 3]
   \<and> conn prism_c1 6 1 = Inr True \<and> conn prism_c1 1 0 = Inr False
   \<and> replay (py_str ''pr'') prism (elements (history prism_c1)) = Inr prism_c1"
proof -
  have p: "produced (py_str ''pr'') prism prism_c1"
    by (rule produced.step[OF produced.step[OF produced.seed[OF prism_graph_root] prism_e1_step]
          prism_c1_step])
  have h: "replay_history prism (elements (history prism_c1))
       = (7, {(2, 0), (3, 0), (4, 0), (4, 1), (4, 3), (5, 2), (5, 3), (5, 4), (6, 0), (6, 1),
              (6, 2)})"
    by code_simp
  have s: "size_bx prism_c1 = 7" "badj prism_c1 = [202, 242, 3]"
    by (simp_all add: prism_c1_def)
  note t = replay_reproduces_graph[OF p, unfolded h fst_conv snd_conv s(1)]
  from t have b: "badj prism_c1 = adjacency_bits 7
       {(2, 0), (3, 0), (4, 0), (4, 1), (4, 3), (5, 2), (5, 3), (5, 4), (6, 0), (6, 1), (6, 2)}"
    by blast
  from t have c: "\<And>i j. 0 \<le> j \<Longrightarrow> j < i \<Longrightarrow> i < 7 \<Longrightarrow> conn prism_c1 i j
      = Inr ((i, j) \<in> {(2, 0), (3, 0), (4, 0), (4, 1), (4, 3), (5, 2), (5, 3), (5, 4), (6, 0),
                        (6, 1), (6, 2)})"
    by blast
  from c[of 1 6] c[of 0 1] have d: "conn prism_c1 6 1 = Inr True" "conn prism_c1 1 0 = Inr False"
    by simp_all
  from t have e: "replay (py_str ''pr'') prism (elements (history prism_c1)) = Inr prism_c1"
    by blast
  from p h s b d e show ?thesis by (intro conjI)
qed

end
